theory Spec2Isabelle
  imports
    Complex_Main
    "HOL-Library.While_Combinator"
    "HOL-Library.Product_Lexorder"
    "HOL-Library.List_Lexorder"
    "HOL-Library.Char_ord"
begin

section \<open>The combat model of \<open>bm_mdp\<close> (\<open>mdp_opt2.py\<close>, \<open>mdp_opt3.py\<close>)\<close>

text \<open>
  Both source files share their first hundred lines: the damage formula, the
  transition function and the lazily expanded state graph of the class \<open>Battle\<close>.
  They differ in \<open>Battle.evaluate\<close> only: \<open>mdp_opt2.py\<close> sweeps dictionaries
  keyed by state keys, \<open>mdp_opt3.py\<close> first compacts the graph into arrays indexed
  by integer ids.

  Conventions of the embedding.
  \<^item> A Python \<open>int\<close> is an \<open>int\<close>; \<open>//\<close> is \<open>div\<close> (both round to minus infinity).
  \<^item> A Python \<open>float\<close> is a \<open>real\<close>: arithmetic is exact, rounding, overflow and
    NaN are not modelled.
  \<^item> A named tuple is a record; a \<open>dict\<close> is an association list in insertion
    order with unique keys (the order Python iterates it in).
  \<^item> An exception is a value \<open>Inl e\<close> of \<open>error + 'a\<close>; a loop that may run forever
    returns an \<open>option\<close>, \<open>None\<close> meaning that it does not return.
  \<^item> \<open>lru_cache\<close> and the cache \<open>Battle.successors\<close> only memoise pure functions
    and are not modelled.
\<close>

datatype error =
  KeyError | ZeroDivisionError | ValueError | TypeError | IndexError | AssertionError
  | NegInfStored | ResultMismatch real real real

definition bindE :: "error + 'a \<Rightarrow> ('a \<Rightarrow> error + 'b) \<Rightarrow> error + 'b" where
  \<comment> \<open>sequencing: an exception of the first computation ends the second\<close>
  "bindE r f = (case r of Inl e \<Rightarrow> Inl e | Inr x \<Rightarrow> f x)"

fun foldE :: "('a \<Rightarrow> 's \<Rightarrow> error + 's) \<Rightarrow> 'a list \<Rightarrow> 's \<Rightarrow> error + 's" where
  \<comment> \<open>a \<open>for\<close> loop whose body may raise\<close>
  "foldE f [] s = Inr s"
| "foldE f (x # xs) s = bindE (f x s) (foldE f xs)"

definition whileE :: "('s \<Rightarrow> bool) \<Rightarrow> ('s \<Rightarrow> error + 's) \<Rightarrow> 's \<Rightarrow> (error + 's) option" where
  \<comment> \<open>a \<open>while\<close> loop whose body may raise; \<open>None\<close> when it runs forever\<close>
  "whileE b c s =
     while_option (\<lambda>r. case r of Inl e \<Rightarrow> False | Inr s \<Rightarrow> b s) (\<lambda>r. bindE r c) (Inr s)"

definition bindR :: "(error + 'a) option \<Rightarrow> ('a \<Rightarrow> (error + 'b) option) \<Rightarrow> (error + 'b) option" where
  \<comment> \<open>sequencing of computations that may raise or run forever\<close>
  "bindR m f = (case m of None \<Rightarrow> None | Some r \<Rightarrow> (case r of Inl e \<Rightarrow> Some (Inl e) | Inr x \<Rightarrow> f x))"

subsection \<open>Dictionaries\<close>

fun dict_get :: "('k \<times> 'v) list \<Rightarrow> 'k \<Rightarrow> 'v \<Rightarrow> 'v" where
  "dict_get [] k d = d"
| "dict_get ((k', v) # kvs) k d = (if k' = k then v else dict_get kvs k d)"

fun dict_set :: "('k \<times> 'v) list \<Rightarrow> 'k \<Rightarrow> 'v \<Rightarrow> ('k \<times> 'v) list" where
  "dict_set [] k v = [(k, v)]"
| "dict_set ((k', v') # kvs) k v =
     (if k' = k then (k, v) # kvs else (k', v') # dict_set kvs k v)"

definition dict_add :: "('k \<times> real) list \<Rightarrow> 'k \<Rightarrow> real \<Rightarrow> ('k \<times> real) list" where
  \<comment> \<open>\<open>dist[k] = dist.get(k, 0.0) + v\<close>\<close>
  "dict_add dct k v = dict_set dct k (dict_get dct k 0 + v)"

subsection \<open>Data\<close>

record stats_t =
  atk :: int
  df :: int
  speed :: int
  spec :: int

definition NOMODS :: stats_t where
  "NOMODS = \<lparr>atk = 0, df = 0, speed = 0, spec = 0\<rparr>"

definition stat_at :: "stats_t \<Rightarrow> nat \<Rightarrow> int" where
  \<comment> \<open>\<open>stats[i]\<close>; the callers pass 0, 1 or 3 only\<close>
  "stat_at s i = (if i = 0 then atk s else if i = 1 then df s
                  else if i = 2 then speed s else spec s)"

record fixeddata_t =
  maxhp :: int
  stats :: stats_t
  lvl :: int
  badges :: stats_t
  basespeed :: int

record halfstate_t =
  fixed :: fixeddata_t
  hp :: int
  status :: int
  statmods :: stats_t
  stats :: stats_t

type_synonym gamestate = "halfstate_t \<times> halfstate_t \<times> int"

record attack_stats_t =
  power :: int
  isspec :: bool
  stab :: bool
  te :: real
  crit :: bool

definition attack_data :: "string \<Rightarrow> attack_stats_t option" where
  "attack_data = map_of
    [(''Ember'', \<lparr>power = 40, isspec = True, stab = True, te = 1 / 2, crit = False\<rparr>),
     (''Dig'', \<lparr>power = 100, isspec = False, stab = False, te = 1, crit = False\<rparr>),
     (''Slash'', \<lparr>power = 70, isspec = False, stab = False, te = 1, crit = True\<rparr>),
     (''Water Gun'', \<lparr>power = 40, isspec = True, stab = True, te = 2, crit = False\<rparr>),
     (''Bubblebeam'', \<lparr>power = 65, isspec = True, stab = True, te = 2, crit = False\<rparr>)]"

subsection \<open>Damage\<close>

definition py_int :: "real \<Rightarrow> int" where
  \<comment> \<open>\<open>int(x)\<close> of a float: truncation towards zero\<close>
  "py_int r = (if 0 \<le> r then \<lfloor>r\<rfloor> else \<lceil>r\<rceil>)"

definition getDamages :: "int \<Rightarrow> int \<Rightarrow> int \<Rightarrow> int \<Rightarrow> bool \<Rightarrow> real \<Rightarrow> error + int list" where
  "getDamages L A D B stb t =
     (let x = (2 * L) div 5 in
      if D * 50 = 0 then Inl ZeroDivisionError
      else
        let x = ((x + 2) * A * B) div (D * 50) + 2;
            x = (if stb then x + x div 2 else x);
            x = py_int (of_int x * t)
        in Inr (map (\<lambda>z. (x * z) div 255) [217..255]))"

definition getCritDist ::
  "int \<Rightarrow> real \<Rightarrow> int \<Rightarrow> int \<Rightarrow> int \<Rightarrow> int \<Rightarrow> int \<Rightarrow> bool \<Rightarrow> real \<Rightarrow> error + (int \<times> real) list" where
  "getCritDist L p A1 A2 D1 D2 B stb t =
     (let p = min p 1 in
      bindE (getDamages L A1 D1 B stb t) (\<lambda>nrm.
      bindE (getDamages (L * 2) A2 D2 B stb t) (\<lambda>crt.
      if length nrm = 0 then Inl ZeroDivisionError
      else let mult_norm = (1 - p) / of_nat (length nrm) in
      if length crt = 0 then Inl ZeroDivisionError
      else let mult_crit = p / of_nat (length crt);
               dct = fold (\<lambda>x dct. dict_add dct x mult_norm) nrm [];
               dct = fold (\<lambda>x dct. dict_add dct x mult_crit) crt dct
      in Inr dct)))"

definition plus12 :: "int \<Rightarrow> int" where
  "plus12 x = x + x div 8"

definition applyHPChange :: "halfstate_t \<Rightarrow> int \<Rightarrow> halfstate_t" where
  "applyHPChange hstate change =
     hstate\<lparr>hp := min (maxhp (fixed hstate)) (max 0 (hp hstate + change))\<rparr>"

definition applyBadgeBoosts :: "stats_t \<Rightarrow> stats_t \<Rightarrow> stats_t" where
  \<comment> \<open>the badge mask is a 4-tuple of integers, true when non-zero\<close>
  "applyBadgeBoosts bs s =
     \<lparr>atk = (if atk bs \<noteq> 0 then plus12 (atk s) else atk s),
      df = (if df bs \<noteq> 0 then plus12 (df s) else df s),
      speed = (if speed bs \<noteq> 0 then plus12 (speed s) else speed s),
      spec = (if spec bs \<noteq> 0 then plus12 (spec s) else spec s)\<rparr>"

subsection \<open>The transition function\<close>

definition applyActionSide1 :: "gamestate \<Rightarrow> string \<Rightarrow> error + (gamestate \<times> real) list" where
  "applyActionSide1 state act =
     (case state of (me, them, extra) \<Rightarrow>
      if act = ''Super Potion'' then
        let me2 = applyHPChange me 50 in Inr [((me2, them, extra), 1)]
      else
        bindE (case attack_data act of None \<Rightarrow> Inl KeyError | Some m \<Rightarrow> Inr m) (\<lambda>mdata.
        let aind = (if isspec mdata then 3 else 0);
            dind = (if isspec mdata then 3 else 1);
            pdiv = (if crit mdata then 64 else 512)
        in bindE (getCritDist (lvl (fixed me)) (of_int (basespeed (fixed me)) / pdiv)
                  (stat_at (halfstate_t.stats me) aind)
                  (stat_at (fixeddata_t.stats (fixed me)) aind)
                  (stat_at (halfstate_t.stats them) dind)
                  (stat_at (fixeddata_t.stats (fixed them)) dind)
                  (power mdata) (stab mdata) (te mdata)) (\<lambda>dmg_dist.
           Inr (fold (\<lambda>(dmg, p) dct.
                        let them2 = applyHPChange them (- dmg);
                            key = (me, them2, extra)
                        in dict_add dct key p) dmg_dist []))))"

definition swap_sides :: "gamestate \<Rightarrow> gamestate" where
  \<comment> \<open>\<open>(k[1], k[0], k[2])\<close>\<close>
  "swap_sides k = (case k of (a, b, extra) \<Rightarrow> (b, a, extra))"

definition applyAction :: "gamestate \<Rightarrow> int \<Rightarrow> string \<Rightarrow> error + (gamestate \<times> real) list" where
  "applyAction state side act =
     (if side = 0 then applyActionSide1 state act
      else case state of (me, them, extra) \<Rightarrow>
        bindE (applyActionSide1 (them, me, extra) act) (\<lambda>dct.
        Inr (fold (\<lambda>(k, v) d. dict_set d (swap_sides k) v) dct [])))"

subsection \<open>The state graph of \<open>Battle\<close>\<close>

text \<open>
  A key of the graph is a Python tuple whose first component is a tag:
  \<open>(0, state)\<close>, \<open>(1, state, action)\<close>, \<open>(2, state, side, action)\<close> and the two
  terminal keys \<open>(4, True)\<close> and \<open>(4, False)\<close>.
\<close>

datatype statep =
  Propose gamestate
  | Resolve gamestate string
  | Outcome gamestate int string
  | Terminal bool

fun tag :: "statep \<Rightarrow> int" where
  \<comment> \<open>\<open>statep[0]\<close>\<close>
  "tag (Propose _) = 0"
| "tag (Resolve _ _) = 1"
| "tag (Outcome _ _ _) = 2"
| "tag (Terminal _) = 4"

definition win :: statep where "win = Terminal True"
definition loss :: statep where "loss = Terminal False"

text \<open>
  Python orders tuples lexicographically, component by component. All keys with one
  tag have one shape, with integers at the leaves and the action string last, so
  the order of two keys is the lexicographic order of the lists of their leaves.
\<close>

definition stats_key :: "stats_t \<Rightarrow> int list" where
  "stats_key s = [atk s, df s, speed s, spec s]"

definition fixed_key :: "fixeddata_t \<Rightarrow> int list" where
  "fixed_key f = [maxhp f] @ stats_key (fixeddata_t.stats f) @ [lvl f]
                 @ stats_key (badges f) @ [basespeed f]"

definition half_key :: "halfstate_t \<Rightarrow> int list" where
  "half_key h = fixed_key (fixed h) @ [hp h, status h] @ stats_key (statmods h)
                @ stats_key (halfstate_t.stats h)"

definition state_key :: "gamestate \<Rightarrow> int list" where
  "state_key s = (case s of (a, b, extra) \<Rightarrow> half_key a @ half_key b @ [extra])"

definition str_key :: "string \<Rightarrow> int list" where
  "str_key s = map (\<lambda>c. int (of_char c)) s"

fun py_key :: "statep \<Rightarrow> int list" where
  "py_key (Propose s) = 0 # state_key s"
| "py_key (Resolve s a) = 1 # state_key s @ str_key a"
| "py_key (Outcome s side a) = 2 # state_key s @ [side] @ str_key a"
| "py_key (Terminal b) = [4, if b then 1 else 0]"

definition sorted_pairs :: "(statep \<times> real) list \<Rightarrow> (statep \<times> real) list" where
  \<comment> \<open>\<open>sorted(dist.items(), key=lambda t: (-t[1], t[0]))\<close>\<close>
  "sorted_pairs items = sort_key (\<lambda>t. (- snd t, py_key (fst t))) items"

fun getSuccessorsA :: "statep \<Rightarrow> error + statep list" where
  "getSuccessorsA (Propose state) = Inr [Resolve state ''Dig'', Resolve state ''Super Potion'']"
| "getSuccessorsA _ = Inl ValueError"

definition classify :: "gamestate \<Rightarrow> statep \<Rightarrow> statep" where
  \<comment> \<open>the \<open>if\<close> chain shared by \<open>_applyActionPair\<close> and \<open>_getSuccessorsC\<close>\<close>
  "classify newstate other =
     (if hp (fst newstate) = 0 then loss
      else if hp (fst (snd newstate)) = 0 then win
      else other)"

definition applyActionPair ::
  "gamestate \<Rightarrow> int \<Rightarrow> string \<Rightarrow> int \<Rightarrow> string \<Rightarrow> (statep \<times> real) list \<Rightarrow> real
   \<Rightarrow> error + (statep \<times> real) list" where
  "applyActionPair state side1 act1 side2 act2 dct pmult =
     bindE (applyAction state side1 act1) (\<lambda>items.
     Inr (fold (\<lambda>(newstate, p) dct.
                  let newstatep = classify newstate (Outcome newstate side2 act2)
                  in dict_add dct newstatep (p * pmult)) items dct))"

fun getSuccessorsB :: "statep \<Rightarrow> error + (statep \<times> real) list" where
  "getSuccessorsB (Resolve state action) =
     bindE (foldE (\<lambda>(eact, p) dct.
              let priority1 = speed (halfstate_t.stats (fst state))
                              + (if action = ''Super Potion'' then 10000 else 0);
                  priority2 = speed (halfstate_t.stats (fst (snd state)))
              in if priority1 > priority2 then
                   applyActionPair state 0 action 1 eact dct p
                 else if priority1 < priority2 then
                   applyActionPair state 1 eact 0 action dct p
                 else
                   bindE (applyActionPair state 0 action 1 eact dct (p * (1 / 2))) (\<lambda>dct.
                   applyActionPair state 1 eact 0 action dct (p * (1 / 2))))
            [(''Water Gun'', 64 / 130), (''Bubblebeam'', 66 / 130)] [])
       (\<lambda>dct. Inr (sorted_pairs dct))"
| "getSuccessorsB _ = Inl ValueError"

fun getSuccessorsC :: "statep \<Rightarrow> error + (statep \<times> real) list" where
  "getSuccessorsC (Outcome state side action) =
     bindE (applyAction state side action) (\<lambda>items.
     let dct = fold (\<lambda>(newstate, p) dct.
                       let newstatep = classify newstate (Propose newstate)
                       in dict_add dct newstatep p) items []
     in Inr (sorted_pairs dct))"
| "getSuccessorsC _ = Inl ValueError"

datatype succs = States "statep list" | Pairs "(statep \<times> real) list"

fun states_only :: "succs \<Rightarrow> statep list" where
  "states_only (States l) = l"
| "states_only (Pairs l) = map fst l"

definition getSuccessors :: "statep \<Rightarrow> error + succs" where
  "getSuccessors statep =
     (let st = tag statep in
      if st = 0 then bindE (getSuccessorsA statep) (\<lambda>l. Inr (States l))
      else if st = 1 then bindE (getSuccessorsB statep) (\<lambda>l. Inr (Pairs l))
      else bindE (getSuccessorsC statep) (\<lambda>l. Inr (Pairs l)))"

definition getSuccessorsList :: "statep \<Rightarrow> error + statep list" where
  "getSuccessorsList statep =
     (if tag statep = 4 then Inr []
      else bindE (getSuccessors statep) (\<lambda>s. Inr (states_only s)))"

subsection \<open>The fixed scenario of \<open>Battle.evaluate\<close>\<close>

definition starfixed :: fixeddata_t where
  "starfixed = \<lparr>maxhp = 59, stats = \<lparr>atk = 40, df = 44, speed = 56, spec = 50\<rparr>,
                 lvl = 11, badges = NOMODS, basespeed = 115\<rparr>"

definition starhalf :: halfstate_t where
  "starhalf = \<lparr>fixed = starfixed, hp = 59, status = 0, statmods = NOMODS,
                stats = \<lparr>atk = 40, df = 44, speed = 56, spec = 50\<rparr>\<rparr>"

definition charbadges :: stats_t where
  \<comment> \<open>\<open>badges = (1, 0, 0, 0)\<close>\<close>
  "charbadges = \<lparr>atk = 1, df = 0, speed = 0, spec = 0\<rparr>"

definition charfixed :: fixeddata_t where
  "charfixed = \<lparr>maxhp = 63, stats = \<lparr>atk = 39, df = 34, speed = 46, spec = 38\<rparr>,
                 lvl = 26, badges = charbadges, basespeed = 65\<rparr>"

definition charhalf :: halfstate_t where
  "charhalf = \<lparr>fixed = charfixed, hp = 63, status = 0, statmods = NOMODS,
                stats = applyBadgeBoosts charbadges \<lparr>atk = 39, df = 34, speed = 46, spec = 38\<rparr>\<rparr>"

definition initial_state :: gamestate where
  "initial_state = (charhalf, starhalf, 0)"

definition initial_statep :: statep where
  "initial_statep = Propose initial_state"

subsection \<open>\<open>topoSort\<close>\<close>

text \<open>
  The stack is the Python list: \<open>pop\<close> takes its last element, \<open>append\<close> and
  \<open>extend\<close> add at the end.
\<close>

record 'k topo =
  results :: "'k list"
  visited :: "'k set"
  stack :: "('k \<times> nat) list"

definition topo_step :: "('k \<Rightarrow> error + 'k list) \<Rightarrow> 'k topo \<Rightarrow> error + 'k topo" where
  \<comment> \<open>the body of \<open>while stack\<close>\<close>
  "topo_step getParents t =
     (case last (stack t) of (current, state) \<Rightarrow>
      let t = t\<lparr>stack := butlast (stack t)\<rparr> in
      if state = 0 then
        if current \<notin> visited t then
          bindE (getParents current) (\<lambda>parents.
          Inr (t\<lparr>visited := insert current (visited t),
                 stack := (stack t @ [(current, 1)]) @ map (\<lambda>parent. (parent, 0)) parents\<rparr>))
        else Inr t
      else
        if current \<in> visited t then Inr (t\<lparr>results := results t @ [current]\<rparr>)
        else Inl AssertionError)"

definition topoSort :: "'k list \<Rightarrow> ('k \<Rightarrow> error + 'k list) \<Rightarrow> (error + 'k list) option" where
  "topoSort roots getParents =
     bindR (whileE (\<lambda>t. stack t \<noteq> []) (topo_step getParents)
             \<lparr>results = [], visited = {}, stack = map (\<lambda>node. (node, 0)) roots\<rparr>)
       (\<lambda>t. Some (Inr (results t)))"

subsection \<open>\<open>Battle.evaluate\<close> of \<open>mdp_opt2.py\<close>\<close>

text \<open>
  \<open>Battle.min\<close> and \<open>Battle.max\<close> are \<open>defaultdict\<close>s, read at any key: total
  functions, with the default value where nothing was stored.
\<close>

record vstate =
  dmin :: "statep \<Rightarrow> real"
  dmax :: "statep \<Rightarrow> real"
  frozen :: "statep set"

definition Battle_init :: vstate where
  \<comment> \<open>\<open>Battle.__init__\<close>\<close>
  "Battle_init = \<lparr>dmin = (\<lambda>_. 0)(win := 1), dmax = (\<lambda>_. 1)(loss := 0), frozen = {win, loss}\<rparr>"

definition raise_best :: "real \<Rightarrow> real option \<Rightarrow> real option" where
  \<comment> \<open>\<open>if v > best: best = v\<close>, where \<open>None\<close> is \<open>float('-inf')\<close>\<close>
  "raise_best v best = (case best of None \<Rightarrow> Some v | Some b \<Rightarrow> if v > b then Some v else Some b)"

definition store_best :: "real option \<Rightarrow> error + real" where
  \<comment> \<open>a bound that is still \<open>float('-inf')\<close> (an empty list of options) is outside the model\<close>
  "store_best best = (case best of None \<Rightarrow> Inl NegInfStored | Some b \<Rightarrow> Inr b)"

definition freeze2 :: "vstate \<Rightarrow> statep \<Rightarrow> vstate" where
  \<comment> \<open>\<open>if dmin[sp] >= dmax[sp]: ...\<close>\<close>
  "freeze2 s sp =
     (if dmin s sp \<ge> dmax s sp then
        let mid = (dmin s sp + dmax s sp) / 2 in
        s\<lparr>dmin := (dmin s)(sp := mid), dmax := (dmax s)(sp := mid), frozen := insert sp (frozen s)\<rparr>
      else s)"

definition update2 :: "vstate \<Rightarrow> statep \<Rightarrow> error + vstate" where
  \<comment> \<open>the body of \<open>for sp in stateps\<close>; \<open>getSuccessors\<close> returns a list of keys
      exactly for the keys of tag 0\<close>
  "update2 s sp =
     (if sp \<in> frozen s then Inr s
      else
        bindE (getSuccessors sp) (\<lambda>succ.
        bindE (if tag sp = 0 then
                 (case succ of Pairs l \<Rightarrow> Inl TypeError | States l \<Rightarrow>
                  (case fold (\<lambda>sp2 (best_min, best_max).
                               (raise_best (dmin s sp2) best_min, raise_best (dmax s sp2) best_max))
                          l (None, None)
                   of (best_min, best_max) \<Rightarrow>
                     bindE (store_best best_min) (\<lambda>lo.
                     bindE (store_best best_max) (\<lambda>hi.
                     Inr (s\<lparr>dmin := (dmin s)(sp := lo), dmax := (dmax s)(sp := hi)\<rparr>)))))
               else
                 (case succ of States l \<Rightarrow> Inl TypeError | Pairs l \<Rightarrow>
                  (case fold (\<lambda>(sp2, p) (smin, smax).
                               (smin + dmin s sp2 * p, smax + dmax s sp2 * p))
                          l (0, 0)
                   of (smin, smax) \<Rightarrow>
                     Inr (s\<lparr>dmin := (dmin s)(sp := smin), dmax := (dmax s)(sp := smax)\<rparr>))))
          (\<lambda>s. Inr (freeze2 s sp))))"

definition sweep2 :: "statep list \<Rightarrow> vstate \<Rightarrow> error + vstate" where
  "sweep2 stateps s = foldE (\<lambda>sp s. update2 s sp) stateps s"

definition evaluate2 :: "real \<Rightarrow> (error + real) option" where
  "evaluate2 tolerance =
     bindR (topoSort [initial_statep] getSuccessorsList) (\<lambda>stateps.
     bindR (whileE (\<lambda>s. dmax s initial_statep - dmin s initial_statep > tolerance)
              (sweep2 stateps) Battle_init) (\<lambda>s.
     Some (Inr ((dmax s initial_statep + dmin s initial_statep) / 2))))"

subsection \<open>\<open>Battle.build_graph\<close> and \<open>Battle.evaluate\<close> of \<open>mdp_opt3.py\<close>\<close>

record bfs =
  q :: "statep list"
  id_of :: "statep \<rightharpoonup> nat"
  states :: "statep list"
  kinds :: "int list"
  succ_states :: "nat list option list"
  succ_pairs :: "(nat \<times> real) list option list"

definition discover :: "statep \<Rightarrow> bfs \<Rightarrow> bfs \<times> nat" where
  \<comment> \<open>\<open>if sp2 not in id_of: ...\<close>, and the id \<open>id_of[sp2]\<close> read after it\<close>
  "discover sp2 b =
     (case id_of b sp2 of
        None \<Rightarrow> (b\<lparr>id_of := (id_of b)(sp2 \<mapsto> length (states b)),
                     states := states b @ [sp2], q := q b @ [sp2]\<rparr>, length (states b))
      | Some j \<Rightarrow> (b, j))"

definition bfs_step :: "bfs \<Rightarrow> error + bfs" where
  \<comment> \<open>the body of \<open>while q\<close>\<close>
  "bfs_step b =
     (let sp = hd (q b); b = b\<lparr>q := tl (q b)\<rparr> in
      bindE (case id_of b sp of None \<Rightarrow> Inl KeyError | Some i \<Rightarrow> Inr i) (\<lambda>i.
      let st = tag sp in
      if st = 0 then
        bindE (getSuccessors sp) (\<lambda>nxt.
        case nxt of Pairs l \<Rightarrow> Inl TypeError | States l \<Rightarrow>
        (case fold (\<lambda>sp2 (b, ids). case discover sp2 b of (b, j) \<Rightarrow> (b, ids @ [j])) l (b, [])
         of (b, ids) \<Rightarrow>
           Inr (b\<lparr>kinds := kinds b @ [0], succ_states := succ_states b @ [Some ids],
                  succ_pairs := succ_pairs b @ [None]\<rparr>)))
      else if st = 4 then
        Inr (b\<lparr>kinds := kinds b @ [4], succ_states := succ_states b @ [Some []],
               succ_pairs := succ_pairs b @ [Some []]\<rparr>)
      else
        bindE (getSuccessors sp) (\<lambda>nxt.
        case nxt of States l \<Rightarrow> Inl TypeError | Pairs l \<Rightarrow>
        (case fold (\<lambda>(sp2, p) (b, pairs). case discover sp2 b of (b, j) \<Rightarrow> (b, pairs @ [(j, p)]))
                l (b, [])
         of (b, pairs) \<Rightarrow>
           Inr (b\<lparr>kinds := kinds b @ [st], succ_states := succ_states b @ [None],
                  succ_pairs := succ_pairs b @ [Some pairs]\<rparr>)))))"

definition build_graph :: "statep \<Rightarrow> (error + bfs) option" where
  "build_graph initial =
     whileE (\<lambda>b. q b \<noteq> []) bfs_step
       \<lparr>q = [initial], id_of = [initial \<mapsto> 0], states = [initial], kinds = [],
        succ_states = [], succ_pairs = []\<rparr>"

definition arr_get :: "'a list \<Rightarrow> nat \<Rightarrow> error + 'a" where
  \<comment> \<open>\<open>xs[i]\<close>\<close>
  "arr_get xs i = (if i < length xs then Inr (xs ! i) else Inl IndexError)"

definition arr_set :: "'a list \<Rightarrow> nat \<Rightarrow> 'a \<Rightarrow> error + 'a list" where
  \<comment> \<open>\<open>xs[i] = v\<close>\<close>
  "arr_set xs i v = (if i < length xs then Inr (xs[i := v]) else Inl IndexError)"

definition dict_at :: "('k \<rightharpoonup> 'v) \<Rightarrow> 'k \<Rightarrow> error + 'v" where
  \<comment> \<open>\<open>d[k]\<close>\<close>
  "dict_at d k = (case d k of None \<Rightarrow> Inl KeyError | Some v \<Rightarrow> Inr v)"

record astate =
  dmin_arr :: "real list"
  dmax_arr :: "real list"
  frozen_a :: "bool list"

definition set_bounds :: "astate \<Rightarrow> nat \<Rightarrow> real \<Rightarrow> real \<Rightarrow> error + astate" where
  \<comment> \<open>\<open>dmin_arr[i] = lo; dmax_arr[i] = hi\<close>\<close>
  "set_bounds s i lo hi =
     bindE (arr_set (dmin_arr s) i lo) (\<lambda>a.
     bindE (arr_set (dmax_arr s) i hi) (\<lambda>b.
     Inr (s\<lparr>dmin_arr := a, dmax_arr := b\<rparr>)))"

definition freeze3 :: "astate \<Rightarrow> nat \<Rightarrow> error + astate" where
  \<comment> \<open>\<open>if dmin_arr[i] >= dmax_arr[i]: ...\<close>\<close>
  "freeze3 s i =
     bindE (arr_get (dmin_arr s) i) (\<lambda>lo.
     bindE (arr_get (dmax_arr s) i) (\<lambda>hi.
     if lo \<ge> hi then
       let mid = (1 / 2) * (lo + hi) in
       bindE (set_bounds s i mid mid) (\<lambda>s.
       bindE (arr_set (frozen_a s) i True) (\<lambda>f.
       Inr (s\<lparr>frozen_a := f\<rparr>)))
     else Inr s))"

definition update3 :: "bfs \<Rightarrow> astate \<Rightarrow> nat \<Rightarrow> error + astate" where
  \<comment> \<open>the body of \<open>for i in order_ids\<close>\<close>
  "update3 g s i =
     bindE (arr_get (frozen_a s) i) (\<lambda>fz.
     if fz then Inr s
     else
       bindE (arr_get (kinds g) i) (\<lambda>k.
       bindE (if k = 0 then
                bindE (arr_get (succ_states g) i) (\<lambda>js.
                case js of None \<Rightarrow> Inl TypeError | Some js \<Rightarrow>
                bindE (foldE (\<lambda>j (best_min, best_max).
                         bindE (arr_get (dmin_arr s) j) (\<lambda>vmin.
                         bindE (arr_get (dmax_arr s) j) (\<lambda>vmax.
                         Inr (raise_best vmin best_min, raise_best vmax best_max))))
                       js (None, None)) (\<lambda>(best_min, best_max).
                bindE (store_best best_min) (\<lambda>lo.
                bindE (store_best best_max) (\<lambda>hi.
                set_bounds s i lo hi))))
              else if k = 1 \<or> k = 2 then
                bindE (arr_get (succ_pairs g) i) (\<lambda>ps.
                case ps of None \<Rightarrow> Inl TypeError | Some ps \<Rightarrow>
                bindE (foldE (\<lambda>(j, p) (smin, smax).
                         bindE (arr_get (dmin_arr s) j) (\<lambda>vmin.
                         bindE (arr_get (dmax_arr s) j) (\<lambda>vmax.
                         Inr (smin + vmin * p, smax + vmax * p))))
                       ps (0, 0)) (\<lambda>(smin, smax).
                set_bounds s i smin smax))
              else Inr s)
         (\<lambda>s. freeze3 s i)))"

definition sweep3 :: "bfs \<Rightarrow> nat list \<Rightarrow> astate \<Rightarrow> error + astate" where
  "sweep3 g order_ids s = foldE (\<lambda>i s. update3 g s i) order_ids s"

definition seed :: "bfs \<Rightarrow> statep \<Rightarrow> bool \<Rightarrow> astate \<Rightarrow> error + astate" where
  \<comment> \<open>\<open>if self.loss in id_of: ...\<close> (the upper bound) and
      \<open>if self.win in id_of: ...\<close> (the lower bound)\<close>
  "seed g k upper s =
     (case id_of g k of None \<Rightarrow> Inr s
      | Some i \<Rightarrow>
          bindE (if upper then bindE (arr_set (dmax_arr s) i 0) (\<lambda>a. Inr (s\<lparr>dmax_arr := a\<rparr>))
                 else bindE (arr_set (dmin_arr s) i 1) (\<lambda>a. Inr (s\<lparr>dmin_arr := a\<rparr>))) (\<lambda>s.
          bindE (arr_set (frozen_a s) i True) (\<lambda>f. Inr (s\<lparr>frozen_a := f\<rparr>))))"

fun mapE :: "('a \<Rightarrow> error + 'b) \<Rightarrow> 'a list \<Rightarrow> error + 'b list" where
  \<comment> \<open>a list comprehension whose element expression may raise\<close>
  "mapE f [] = Inr []"
| "mapE f (x # xs) = bindE (f x) (\<lambda>y. bindE (mapE f xs) (\<lambda>ys. Inr (y # ys)))"

definition liftE :: "error + 'a \<Rightarrow> (error + 'a) option" where
  "liftE r = Some r"

definition evaluate3 :: "real \<Rightarrow> (error + real) option" where
  "evaluate3 tolerance =
     bindR (build_graph initial_statep) (\<lambda>g.
     let n = length (states g);
         s = \<lparr>dmin_arr = replicate n 0, dmax_arr = replicate n 1, frozen_a = replicate n False\<rparr>
     in
     bindR (liftE (seed g loss True s)) (\<lambda>s.
     bindR (liftE (seed g win False s)) (\<lambda>s.
     bindR (liftE (dict_at (id_of g) initial_statep)) (\<lambda>i_init.
     bindR (topoSort [initial_statep] getSuccessorsList) (\<lambda>stateps.
     bindR (liftE (mapE (dict_at (id_of g)) stateps)) (\<lambda>order_ids.
     bindR (liftE (bindE (arr_get (dmax_arr s) i_init) (\<lambda>_. arr_get (dmin_arr s) i_init))) (\<lambda>_.
     bindR (whileE (\<lambda>s. dmax_arr s ! i_init - dmin_arr s ! i_init > tolerance)
              (sweep3 g order_ids) s) (\<lambda>s.
     Some (Inr ((1 / 2) * (dmax_arr s ! i_init + dmin_arr s ! i_init)))))))))))"

subsection \<open>\<open>bench_mdp\<close>\<close>



subsection \<open>Predicates used in the statements\<close>

definition positive_stats :: "stats_t \<Rightarrow> bool" where
  "positive_stats s = (0 < atk s \<and> 0 < df s \<and> 0 < speed s \<and> 0 < spec s)"

definition valid_half :: "halfstate_t \<Rightarrow> bool" where
  "valid_half h = (positive_stats (halfstate_t.stats h)
                   \<and> positive_stats (fixeddata_t.stats (fixed h)) \<and> 0 < lvl (fixed h))"

definition menu :: "string set" where
  "menu = {''Ember'', ''Dig'', ''Slash'', ''Water Gun'', ''Bubblebeam'', ''Super Potion''}"

definition edges :: "('k \<Rightarrow> 'k list) \<Rightarrow> ('k \<times> 'k) set" where
  "edges f = {(a, b). b \<in> set (f a)}"

definition reach :: "('k \<Rightarrow> 'k list) \<Rightarrow> 'k \<Rightarrow> 'k set" where
  "reach f r0 = {k. (r0, k) \<in> (edges f)\<^sup>*}"

definition pending :: "('k \<times> nat) list \<Rightarrow> 'k list" where
  "pending stk = map fst (filter (\<lambda>e. snd e \<noteq> 0) stk)"

definition topo_inv :: "('k \<Rightarrow> 'k list) \<Rightarrow> 'k list \<Rightarrow> 'k topo \<Rightarrow> bool" where
  "topo_inv f roots t \<longleftrightarrow>
     distinct (results t) \<and> distinct (pending (stack t))
     \<and> visited t = set (results t) \<union> set (pending (stack t))
     \<and> set (results t) \<inter> set (pending (stack t)) = {}
     \<and> visited t \<subseteq> \<Union> (reach f ` set roots)
     \<and> fst ` set (stack t) \<subseteq> \<Union> (reach f ` set roots)
     \<and> (\<forall>v\<in>visited t. \<forall>w\<in>set (f v). w \<in> visited t \<or> (w, 0) \<in> set (stack t))
     \<and> (\<forall>r\<in>set roots. r \<in> visited t \<or> (r, 0) \<in> set (stack t))"

text \<open>A small graph with a cycle and a key that has two predecessors.\<close>

definition demo_succ :: "nat \<Rightarrow> nat list" where
  "demo_succ k = (if k = 0 then [1, 2] else if k = 1 then [2, 0] else [])"

text \<open>
  The keys \<open>Battle.evaluate\<close> can meet: both combatants as in the fixed scenario,
  with any hit points between zero and the maximum.
\<close>

definition char_half :: "halfstate_t \<Rightarrow> bool" where
  "char_half h \<longleftrightarrow> h = charhalf\<lparr>hp := hp h\<rparr> \<and> 0 \<le> hp h \<and> hp h \<le> 63"

definition star_half :: "halfstate_t \<Rightarrow> bool" where
  "star_half h \<longleftrightarrow> h = starhalf\<lparr>hp := hp h\<rparr> \<and> 0 \<le> hp h \<and> hp h \<le> 59"

definition battle_state :: "gamestate \<Rightarrow> bool" where
  "battle_state s = (case s of (me, them, extra) \<Rightarrow> char_half me \<and> star_half them \<and> extra = 0)"

fun battle_key :: "statep \<Rightarrow> bool" where
  "battle_key (Propose s) = battle_state s"
| "battle_key (Resolve s a) = (battle_state s \<and> (a = ''Dig'' \<or> a = ''Super Potion''))"
| "battle_key (Outcome s side a) =
     (battle_state s \<and> (side = 0 \<and> (a = ''Dig'' \<or> a = ''Super Potion'')
                        \<or> side = 1 \<and> (a = ''Water Gun'' \<or> a = ''Bubblebeam'')))"
| "battle_key (Terminal b) = True"

definition good_pairs :: "(statep \<times> real) list \<Rightarrow> bool" where
  "good_pairs l \<longleftrightarrow> distinct (map fst l) \<and> (\<forall>x\<in>set l. battle_key (fst x) \<and> 0 \<le> snd x)"

definition succ_keys :: "statep \<Rightarrow> statep list" where
  \<comment> \<open>\<open>getSuccessorsList\<close> as a total function (empty where it raises)\<close>
  "succ_keys k = (case getSuccessorsList k of Inl e \<Rightarrow> [] | Inr l \<Rightarrow> l)"

text \<open>
  The states a run of \<open>Battle.evaluate\<close> (\<open>mdp_opt2.py\<close>) passes through: the state
  \<open>Battle.__init__\<close> builds, and the state after any further execution of the body
  of \<open>for sp in stateps\<close> that does not raise.
\<close>

inductive run2 :: "vstate \<Rightarrow> bool" where
  run2_init: "run2 Battle_init"
| run2_step: "run2 s \<Longrightarrow> update2 s sp = Inr s' \<Longrightarrow> run2 s'"

definition choice_bounds :: "vstate \<Rightarrow> statep list \<Rightarrow> real option \<times> real option" where
  "choice_bounds s l = fold (\<lambda>sp2 (best_min, best_max).
       (raise_best (dmin s sp2) best_min, raise_best (dmax s sp2) best_max)) l (None, None)"

definition chance_bounds :: "vstate \<Rightarrow> (statep \<times> real) list \<Rightarrow> real \<times> real" where
  "chance_bounds s l = fold (\<lambda>(sp2, p) (smin, smax).
       (smin + dmin s sp2 * p, smax + dmax s sp2 * p)) l (0, 0)"

definition set_bounds2 :: "vstate \<Rightarrow> statep \<Rightarrow> real \<Rightarrow> real \<Rightarrow> vstate" where
  "set_bounds2 s sp lo hi = s\<lparr>dmin := (dmin s)(sp := lo), dmax := (dmax s)(sp := hi)\<rparr>"

definition ids_ok :: "bfs \<Rightarrow> bool" where
  "ids_ok b \<longleftrightarrow> distinct (states b)
     \<and> (\<forall>k i. id_of b k = Some i \<longleftrightarrow> i < length (states b) \<and> states b ! i = k)"

definition discover_list ::
  "('x \<Rightarrow> statep) \<Rightarrow> ('x \<Rightarrow> nat \<Rightarrow> 'y) \<Rightarrow> 'x list \<Rightarrow> bfs \<times> 'y list \<Rightarrow> bfs \<times> 'y list" where
  "discover_list key mk xs start =
     fold (\<lambda>x acc. case discover (key x) (fst acc) of (b, j) \<Rightarrow> (b, snd acc @ [mk x j])) xs start"

definition entry_ok :: "bfs \<Rightarrow> nat \<Rightarrow> bool" where
  "entry_ok b i \<longleftrightarrow>
     (let k = states b ! i in
      kinds b ! i = tag k \<and>
      (if tag k = 4 then succ_states b ! i = Some [] \<and> succ_pairs b ! i = Some []
       else case getSuccessors k of
              Inl e \<Rightarrow> False
            | Inr sc \<Rightarrow>
                (case sc of
                   States l \<Rightarrow> tag k = 0 \<and> set l \<subseteq> dom (id_of b)
                     \<and> succ_states b ! i = Some (map (\<lambda>k'. the (id_of b k')) l)
                     \<and> succ_pairs b ! i = None
                 | Pairs l \<Rightarrow> tag k \<noteq> 0 \<and> fst ` set l \<subseteq> dom (id_of b)
                     \<and> succ_states b ! i = None
                     \<and> succ_pairs b ! i = Some (map (\<lambda>x. (the (id_of b (fst x)), snd x)) l))))"

definition bfs_inv :: "statep \<Rightarrow> bfs \<Rightarrow> bool" where
  "bfs_inv init b \<longleftrightarrow>
     ids_ok b \<and> set (states b) \<subseteq> reach succ_keys init \<and> id_of b init = Some 0
     \<and> length (kinds b) \<le> length (states b)
     \<and> length (succ_states b) = length (kinds b) \<and> length (succ_pairs b) = length (kinds b)
     \<and> q b = drop (length (kinds b)) (states b)
     \<and> (\<forall>i<length (kinds b). entry_ok b i)"

definition bfs_start :: "statep \<Rightarrow> bfs" where
  "bfs_start initial = \<lparr>q = [initial], id_of = [initial \<mapsto> 0], states = [initial], kinds = [],
        succ_states = [], succ_pairs = []\<rparr>"

text \<open>
  The dictionary state that an array state of \<open>mdp_opt3.py\<close> stands for: a key with
  an id has the bounds stored at its id, any other key those of \<open>Battle.__init__\<close>.
\<close>

definition look :: "bfs \<Rightarrow> (statep \<Rightarrow> 'a) \<Rightarrow> 'a list \<Rightarrow> statep \<Rightarrow> 'a" where
  "look g d xs k = (case id_of g k of None \<Rightarrow> d k | Some i \<Rightarrow> xs ! i)"

definition abs_state :: "bfs \<Rightarrow> astate \<Rightarrow> vstate" where
  "abs_state g s =
     \<lparr>dmin = look g (dmin Battle_init) (dmin_arr s),
      dmax = look g (dmax Battle_init) (dmax_arr s),
      frozen = Collect (look g (\<lambda>k. k \<in> frozen Battle_init) (frozen_a s))\<rparr>"

definition wf3 :: "bfs \<Rightarrow> astate \<Rightarrow> bool" where
  "wf3 g s \<longleftrightarrow> length (dmin_arr s) = length (states g) \<and> length (dmax_arr s) = length (states g)
     \<and> length (frozen_a s) = length (states g)
     \<and> (\<forall>i<length (states g). tag (states g ! i) = 4 \<longrightarrow> frozen_a s ! i)"





section \<open>Properties\<close>

subsection \<open>Dictionaries and the transition function\<close>

lemma bindE_Inr_iff: "bindE r f = Inr y \<longleftrightarrow> (\<exists>x. r = Inr x \<and> f x = Inr y)"
  by (cases r) (auto simp: bindE_def)

lemma bindE_Inr [simp]: "bindE (Inr x) f = f x"
  by (simp add: bindE_def)

lemma bindE_Inl [simp]: "bindE (Inl e) f = Inl e"
  by (simp add: bindE_def)

lemma dict_set_keys:
  "map fst (dict_set d k v) = (if k \<in> fst ` set d then map fst d else map fst d @ [k])"
  by (induction d) (fastforce simp: image_iff)+

lemma dict_set_fresh: "k \<notin> fst ` set d \<Longrightarrow> dict_set d k v = d @ [(k, v)]"
  by (induction d) auto

lemma distinct_dict_set: "distinct (map fst d) \<Longrightarrow> distinct (map fst (dict_set d k v))"
  by (simp add: dict_set_keys)

lemma distinct_dict_add: "distinct (map fst d) \<Longrightarrow> distinct (map fst (dict_add d k v))"
  by (simp add: dict_add_def distinct_dict_set)

lemma set_keys_dict_add: "fst ` set (dict_add d k v) = insert k (fst ` set d)"
proof -
  have "set (map fst (dict_add d k v)) = insert k (set (map fst d))"
    unfolding dict_add_def dict_set_keys by auto
  then show ?thesis by simp
qed

lemma sum_dict_set:
  "sum_list (map snd (dict_set d k (dict_get d k 0 + v))) = sum_list (map snd d) + (v::real)"
  by (induction d) auto

lemma sum_dict_add: "sum_list (map snd (dict_add d k v)) = sum_list (map snd d) + v"
  by (simp add: dict_add_def sum_dict_set)

lemma distinct_fold_dict_add:
  "distinct (map fst acc) \<Longrightarrow> distinct (map fst (fold (\<lambda>x d. dict_add d (g x) (h x)) xs acc))"
  by (induction xs arbitrary: acc) (auto simp: distinct_dict_add)

lemma sum_fold_dict_add:
  "sum_list (map snd (fold (\<lambda>x d. dict_add d (g x) (h x)) xs acc))
   = sum_list (map snd acc) + sum_list (map h xs)"
  by (induction xs arbitrary: acc) (auto simp: sum_dict_add)

lemma set_keys_fold_dict_add:
  "fst ` set (fold (\<lambda>x d. dict_add d (g x) (h x)) xs acc) = fst ` set acc \<union> g ` set xs"
  by (induction xs arbitrary: acc) (auto simp: set_keys_dict_add)

lemma fold_dict_set_inj:
  assumes "inj f" "distinct (map fst d)" "f ` fst ` set d \<inter> fst ` set acc = {}"
  shows "fold (\<lambda>(k, v) a. dict_set a (f k) v) d acc = acc @ map (\<lambda>(k, v). (f k, v)) d"
  using assms(2,3)
proof (induction d arbitrary: acc)
  case Nil
  then show ?case by simp
next
  case (Cons kv d)
  obtain k v where kv: "kv = (k, v)" by (cases kv)
  have fresh: "f k \<notin> fst ` set acc" using Cons.prems(2) kv by auto
  have step: "dict_set acc (f k) v = acc @ [(f k, v)]" by (rule dict_set_fresh [OF fresh])
  have "f ` fst ` set d \<inter> fst ` set (acc @ [(f k, v)]) = {}"
  proof -
    have "f k \<notin> f ` fst ` set d"
    proof
      assume "f k \<in> f ` fst ` set d"
      then obtain k' where "k' \<in> fst ` set d" "f k = f k'" by auto
      with assms(1) have "k \<in> fst ` set d" by (auto dest: injD)
      with Cons.prems(1) kv show False by auto
    qed
    with Cons.prems(2) show ?thesis by auto
  qed
  with Cons.IH [of "acc @ [(f k, v)]"] Cons.prems(1) show ?case
    by (simp add: kv step)
qed

lemma swap_sides_invol: "swap_sides (swap_sides s) = s"
  by (cases s) (simp add: swap_sides_def)

lemma inj_swap_sides: "inj swap_sides"
  by (rule inj_on_inverseI [where g = swap_sides]) (simp add: swap_sides_invol)

lemma distinct_applyActionSide1:
  "applyActionSide1 state act = Inr d \<Longrightarrow> distinct (map fst d)"
  unfolding applyActionSide1_def case_prod_unfold Let_def
  by (auto simp: bindE_Inr_iff distinct_fold_dict_add split: if_splits)

lemma applyAction_other_side:
  assumes "side \<noteq> 0"
  shows "applyAction state side act
     = map_sum id (map (\<lambda>(k, v). (swap_sides k, v))) (applyActionSide1 (swap_sides state) act)"
proof -
  obtain me them extra where st: "state = (me, them, extra)" by (cases state)
  show ?thesis
  proof (cases "applyActionSide1 (them, me, extra) act")
    case (Inl e)
    then show ?thesis using assms by (simp add: st applyAction_def swap_sides_def)
  next
    case (Inr d)
    have "fold (\<lambda>(k, v) a. dict_set a (swap_sides k) v) d [] = [] @ map (\<lambda>(k, v). (swap_sides k, v)) d"
      by (rule fold_dict_set_inj [OF inj_swap_sides distinct_applyActionSide1 [OF Inr]]) simp
    with Inr show ?thesis using assms by (simp add: st applyAction_def swap_sides_def)
  qed
qed

text \<open>
  Claim C6. Swapping the two \<open>HalfState\<close> components of a game state is its own
  inverse, and \<open>_applyAction(state, 1, action)\<close> is \<open>_applyActionSide1\<close> on the
  swapped state with every key of the result swapped back (an exception of
  \<open>_applyActionSide1\<close> is passed on unchanged).
\<close>

theorem side_swap:
  "swap_sides (swap_sides state) = state \<and>
   applyAction state 1 act
     = map_sum id (map (\<lambda>(k, v). (swap_sides k, v))) (applyActionSide1 (swap_sides state) act)"
  by (simp add: swap_sides_invol applyAction_other_side)

lemma getDamages_Inr:
  "D \<noteq> 0 \<Longrightarrow> \<exists>l. getDamages L A D B stb t = Inr l \<and> length l = 39"
  unfolding getDamages_def Let_def by (simp del: upto_rec_numeral)

lemma sum_list_const: "sum_list (map (\<lambda>_. c) xs) = of_nat (length xs) * (c::real)"
  by (induction xs) (auto simp: algebra_simps)

lemma getCritDist_sum:
  assumes "D1 \<noteq> 0" "D2 \<noteq> 0"
  shows "\<exists>d. getCritDist L p A1 A2 D1 D2 B stb t = Inr d \<and> sum_list (map snd d) = 1"
proof -
  obtain nrm where n: "getDamages L A1 D1 B stb t = Inr nrm" "length nrm = 39"
    using getDamages_Inr [OF assms(1)] by blast
  obtain crt where c: "getDamages (L * 2) A2 D2 B stb t = Inr crt" "length crt = 39"
    using getDamages_Inr [OF assms(2)] by blast
  have ne: "nrm \<noteq> []" "crt \<noteq> []" using n(2) c(2) by auto
  show ?thesis
    by (simp add: getCritDist_def n c ne Let_def sum_fold_dict_add sum_list_const)
       (simp add: field_simps)
qed

lemma stat_at_pos: "positive_stats s \<Longrightarrow> stat_at s i \<noteq> 0"
  by (auto simp: positive_stats_def stat_at_def)

lemma attack_data_menu:
  "act \<in> menu \<Longrightarrow> act \<noteq> ''Super Potion'' \<Longrightarrow> \<exists>m. attack_data act = Some m"
  by (auto simp: menu_def attack_data_def)

lemma applyActionSide1_sum:
  assumes "valid_half them" "act \<in> menu"
  shows "\<exists>d. applyActionSide1 (me, them, extra) act = Inr d \<and> sum_list (map snd d) = 1"
proof (cases "act = ''Super Potion''")
  case True
  then show ?thesis by (simp add: applyActionSide1_def)
next
  case False
  obtain m where m: "attack_data act = Some m"
    using attack_data_menu [OF assms(2) False] by blast
  let ?dind = "if isspec m then 3 else 1 :: nat"
  let ?aind = "if isspec m then 3 else 0 :: nat"
  let ?pdiv = "if crit m then 64 else 512 :: real"
  have d1: "stat_at (halfstate_t.stats them) ?dind \<noteq> 0"
    and d2: "stat_at (fixeddata_t.stats (fixed them)) ?dind \<noteq> 0"
    using assms(1) by (simp_all add: valid_half_def stat_at_pos)
  obtain dd where dd: "getCritDist (lvl (fixed me)) (of_int (basespeed (fixed me)) / ?pdiv)
      (stat_at (halfstate_t.stats me) ?aind) (stat_at (fixeddata_t.stats (fixed me)) ?aind)
      (stat_at (halfstate_t.stats them) ?dind) (stat_at (fixeddata_t.stats (fixed them)) ?dind)
      (power m) (stab m) (te m) = Inr dd" "sum_list (map snd dd) = 1"
    using getCritDist_sum [OF d1 d2] by blast
  show ?thesis
    unfolding applyActionSide1_def case_prod_unfold Let_def
    using False m dd by (simp add: sum_fold_dict_add)
qed

lemma applyAction_sum:
  assumes "valid_half me" "valid_half them" "act \<in> menu"
  shows "\<exists>d. applyAction (me, them, extra) side act = Inr d \<and> sum_list (map snd d) = 1"
proof (cases "side = 0")
  case True
  then show ?thesis using applyActionSide1_sum [OF assms(2,3)] by (simp add: applyAction_def)
next
  case False
  obtain d where d: "applyActionSide1 (them, me, extra) act = Inr d" "sum_list (map snd d) = 1"
    using applyActionSide1_sum [OF assms(1,3)] by blast
  have "applyAction (me, them, extra) side act
     = map_sum id (map (\<lambda>(k, v). (swap_sides k, v))) (applyActionSide1 (swap_sides (me, them, extra)) act)"
    using False by (rule applyAction_other_side)
  moreover have "snd \<circ> (\<lambda>(k, v). (swap_sides k, v)) = (snd :: gamestate \<times> real \<Rightarrow> real)"
    by (auto simp: fun_eq_iff)
  moreover have "swap_sides (me, them, extra) = (them, me, extra)"
    by (simp add: swap_sides_def)
  ultimately show ?thesis using d by simp
qed

lemma sum_insort_key:
  "sum_list (map snd (insort_key f x xs)) = (snd x :: real) + sum_list (map snd xs)"
  by (induction xs) auto

lemma sum_sort_key: "sum_list (map snd (sort_key f xs)) = (sum_list (map snd xs) :: real)"
  by (induction xs) (auto simp: sum_insort_key)

lemma sum_sorted_pairs: "sum_list (map snd (sorted_pairs xs)) = sum_list (map snd xs)"
  by (simp add: sorted_pairs_def sum_sort_key)







lemma whileE_unfold:
  "whileE b c s = (if b s then (case c s of Inl e \<Rightarrow> Some (Inl e) | Inr s' \<Rightarrow> whileE b c s')
                   else Some (Inr s))"
proof (cases "b s")
  case False
  then show ?thesis
    unfolding whileE_def by (subst while_option_unfold) simp
next
  case True
  show ?thesis
  proof (cases "c s")
    case (Inl e)
    have "whileE b c s = while_option (\<lambda>r. case r of Inl e \<Rightarrow> False | Inr s \<Rightarrow> b s)
             (\<lambda>r. bindE r c) (Inl e)"
      unfolding whileE_def using True Inl by (subst while_option_unfold) simp
    also have "\<dots> = Some (Inl e)" by (subst while_option_unfold) simp
    finally show ?thesis using True Inl by simp
  next
    case (Inr s')
    then show ?thesis
      unfolding whileE_def using True by (subst while_option_unfold) simp
  qed
qed

lemma whileE_rule:
  fixes s :: 's
  assumes "P s"
    and step: "\<And>s. P s \<Longrightarrow> b s \<Longrightarrow> \<exists>s'. c s = Inr s' \<and> P s'"
    and res: "whileE b c s = Some r"
  shows "\<exists>t. r = Inr t \<and> P t \<and> \<not> b t"
proof -
  let ?B = "\<lambda>r :: error + 's. case r of Inl e \<Rightarrow> False | Inr s \<Rightarrow> b s"
  let ?C = "\<lambda>r :: error + 's. bindE r c"
  let ?P = "\<lambda>r :: error + 's. \<exists>s. r = Inr s \<and> P s"
  have w: "while_option ?B ?C (Inr s) = Some r" using res by (simp add: whileE_def)
  have "?P r"
  proof (rule while_option_rule [where P = ?P, OF _ w])
    show "?P (Inr s)" using assms(1) by simp
  next
    fix x assume "?P x" "?B x"
    then obtain s0 where "x = Inr s0" "P s0" "b s0" by auto
    with step [of s0] show "?P (?C x)" by auto
  qed
  moreover have "\<not> ?B r" using while_option_stop [OF w] .
  ultimately show ?thesis by auto
qed

lemma whileE_terminates:
  fixes s :: 's
  assumes "P s"
    and step: "\<And>s. P s \<Longrightarrow> b s \<Longrightarrow> \<exists>s'. c s = Inr s' \<and> P s' \<and> (s', s) \<in> R"
    and "wf R"
  shows "\<exists>t. whileE b c s = Some (Inr t) \<and> P t \<and> \<not> b t"
proof -
  let ?B = "\<lambda>r :: error + 's. case r of Inl e \<Rightarrow> False | Inr s \<Rightarrow> b s"
  let ?C = "\<lambda>r :: error + 's. bindE r c"
  let ?P = "\<lambda>r :: error + 's. \<exists>s. r = Inr s \<and> P s"
  have "wf (inv_image R projr)" using assms(3) by (rule wf_inv_image)
  moreover have "{(t, s). (?P s \<and> ?B s) \<and> t = ?C s} \<subseteq> inv_image R projr"
  proof (clarify)
    fix s0 assume "P s0" "?B (Inr s0)"
    then have "b s0" by simp
    with step [OF \<open>P s0\<close>] obtain s' where "c s0 = Inr s'" "(s', s0) \<in> R" by blast
    then show "(bindE (Inr s0) c, Inr s0) \<in> inv_image R projr"
      by (simp add: inv_image_def bindE_def)
  qed
  ultimately have wf: "wf {(t, s). (?P s \<and> ?B s) \<and> t = ?C s}" by (rule wf_subset)
  have "\<exists>t. while_option ?B ?C (Inr s) = Some t"
  proof (rule wf_while_option_Some [OF wf])
    show "?P (Inr s)" using assms(1) by simp
  next
    fix x assume "?P x" "?B x"
    then obtain s0 where "x = Inr s0" "P s0" "b s0" by auto
    with step [of s0] show "?P (?C x)" by auto
  qed
  then obtain r where r: "whileE b c s = Some r" by (auto simp: whileE_def)
  have step': "\<And>s. P s \<Longrightarrow> b s \<Longrightarrow> \<exists>s'. c s = Inr s' \<and> P s'"
    using step by blast
  have "\<exists>t. r = Inr t \<and> P t \<and> \<not> b t"
    using whileE_rule [of P s b c r, OF assms(1) step' r] by blast
  with r show ?thesis by auto
qed

lemma reach_refl: "r \<in> reach f r"
  by (simp add: reach_def)

lemma reach_step: "v \<in> reach f r \<Longrightarrow> w \<in> set (f v) \<Longrightarrow> w \<in> reach f r"
  unfolding reach_def edges_def by (auto intro: rtrancl_into_rtrancl)

lemma reach_closed:
  assumes "r \<in> S" and "\<And>v w. v \<in> S \<Longrightarrow> w \<in> set (f v) \<Longrightarrow> w \<in> S"
  shows "reach f r \<subseteq> S"
proof
  fix k assume "k \<in> reach f r"
  then have "(r, k) \<in> (edges f)\<^sup>*" by (simp add: reach_def)
  then show "k \<in> S"
    by (induction rule: rtrancl_induct) (use assms in \<open>auto simp: edges_def\<close>)
qed

lemma pending_append [simp]: "pending (xs @ ys) = pending xs @ pending ys"
  by (simp add: pending_def)

lemma pending_zero [simp]: "pending (map (\<lambda>p. (p, 0)) ps) = []"
  by (induction ps) (auto simp: pending_def)

lemma pending_Nil [simp]: "pending [] = []"
  by (simp add: pending_def)

lemma pending_Cons [simp]: "pending ((k, s) # xs) = (if s = 0 then pending xs else k # pending xs)"
  by (simp add: pending_def)

lemma topo_step_pure:
  assumes "stack t = stk @ [(k, s)]"
  shows "topo_step (\<lambda>k. Inr (f k)) t =
     (if s = 0 then
        if k \<notin> visited t then
          Inr (t\<lparr>stack := stk, visited := insert k (visited t),
                 stack := (stk @ [(k, 1)]) @ map (\<lambda>p. (p, 0)) (f k)\<rparr>)
        else Inr (t\<lparr>stack := stk\<rparr>)
      else if k \<in> visited t then Inr (t\<lparr>stack := stk, results := results t @ [k]\<rparr>)
      else Inl AssertionError)"
  using assms by (simp add: topo_step_def Let_def)

lemma topo_inv_init:
  "topo_inv f roots \<lparr>results = [], visited = {}, stack = map (\<lambda>node. (node, 0)) roots\<rparr>"
  by (auto simp: topo_inv_def reach_refl image_iff intro!: bexI)

lemma topo_inv_step:
  assumes inv: "topo_inv f roots t" and ne: "stack t \<noteq> []"
  shows "\<exists>t'. topo_step (\<lambda>k. Inr (f k)) t = Inr t' \<and> topo_inv f roots t'
          \<and> ((visited t \<subset> visited t' \<and> visited t' \<subseteq> \<Union> (reach f ` set roots))
              \<or> (visited t' = visited t \<and> length (stack t') < length (stack t)))"
proof -
  let ?R = "\<Union> (reach f ` set roots)"
  obtain stk e where st: "stack t = stk @ [e]"
    using ne by (metis append_butlast_last_id)
  obtain k s where e: "e = (k, s)" by (cases e)
  note st = st [unfolded e]
  have i1: "distinct (results t)" and i2: "distinct (pending (stack t))"
    and i3: "visited t = set (results t) \<union> set (pending (stack t))"
    and i4: "set (results t) \<inter> set (pending (stack t)) = {}"
    and i5: "visited t \<subseteq> ?R" and i6: "fst ` set (stack t) \<subseteq> ?R"
    and i7: "\<And>v w. v \<in> visited t \<Longrightarrow> w \<in> set (f v) \<Longrightarrow> w \<in> visited t \<or> (w, 0) \<in> set (stack t)"
    and i8: "\<And>r. r \<in> set roots \<Longrightarrow> r \<in> visited t \<or> (r, 0) \<in> set (stack t)"
    using inv unfolding topo_inv_def by blast+
  have kR: "k \<in> ?R" using i6 st by auto
  consider (new) "s = 0" "k \<notin> visited t" | (old) "s = 0" "k \<in> visited t" | (pop1) "s \<noteq> 0"
    by blast
  then show ?thesis
  proof cases
    case new
    let ?stk' = "(stk @ [(k, 1)]) @ map (\<lambda>p. (p, 0)) (f k)"
    let ?t' = "t\<lparr>stack := stk, visited := insert k (visited t), stack := ?stk'\<rparr>"
    have step: "topo_step (\<lambda>k. Inr (f k)) t = Inr ?t'"
      using new by (simp add: topo_step_pure [OF st])
    have succR: "set (f k) \<subseteq> ?R" using kR by (auto intro: reach_step)
    have p: "pending (stack t) = pending stk" "pending ?stk' = pending stk @ [k]"
      using new st by simp_all
    have knot: "k \<notin> set (results t)" "k \<notin> set (pending stk)"
      using new i3 p by auto
    have c7: "w \<in> insert k (visited t) \<or> (w, 0) \<in> set ?stk'"
      if "v \<in> insert k (visited t)" "w \<in> set (f v)" for v w
    proof (cases "v = k")
      case True
      then show ?thesis using that by auto
    next
      case False
      then have "w \<in> visited t \<or> (w, 0) \<in> set (stack t)" using that i7 by auto
      then show ?thesis using st by auto
    qed
    have c8: "r \<in> insert k (visited t) \<or> (r, 0) \<in> set ?stk'" if "r \<in> set roots" for r
      using i8 [OF that] st by auto
    have "topo_inv f roots ?t'"
      unfolding topo_inv_def
    proof (intro conjI ballI)
      show "distinct (results ?t')" using i1 by simp
      show "distinct (pending (stack ?t'))" using i2 p knot by simp
      show "visited ?t' = set (results ?t') \<union> set (pending (stack ?t'))"
        using i3 p by auto
      show "set (results ?t') \<inter> set (pending (stack ?t')) = {}"
        using i4 p knot by auto
      show "visited ?t' \<subseteq> ?R" using i5 kR by auto
      show "fst ` set (stack ?t') \<subseteq> ?R" using i6 st kR succR by auto
      show "w \<in> visited ?t' \<or> (w, 0) \<in> set (stack ?t')"
        if "v \<in> visited ?t'" "w \<in> set (f v)" for v w
        using c7 [of v w] that by simp
      show "r \<in> visited ?t' \<or> (r, 0) \<in> set (stack ?t')" if "r \<in> set roots" for r
        using c8 [OF that] by simp
    qed
    moreover have "visited t \<subset> visited ?t'" using new by auto
    moreover have "visited ?t' \<subseteq> ?R" using i5 kR by auto
    ultimately show ?thesis using step by blast
  next
    case old
    let ?t' = "t\<lparr>stack := stk\<rparr>"
    have step: "topo_step (\<lambda>k. Inr (f k)) t = Inr ?t'"
      using old by (simp add: topo_step_pure [OF st])
    have p: "pending (stack t) = pending stk" using old st by simp
    have "topo_inv f roots ?t'"
      unfolding topo_inv_def
    proof (intro conjI ballI)
      show "distinct (results ?t')" using i1 by simp
      show "distinct (pending (stack ?t'))" using i2 p by simp
      show "visited ?t' = set (results ?t') \<union> set (pending (stack ?t'))"
        using i3 p by auto
      show "set (results ?t') \<inter> set (pending (stack ?t')) = {}"
        using i4 p by auto
      show "visited ?t' \<subseteq> ?R" using i5 by auto
      show "fst ` set (stack ?t') \<subseteq> ?R" using i6 st by auto
      show "w \<in> visited ?t' \<or> (w, 0) \<in> set (stack ?t')"
        if "v \<in> visited ?t'" "w \<in> set (f v)" for v w
        using i7 [of v w] that st old by auto
      show "r \<in> visited ?t' \<or> (r, 0) \<in> set (stack ?t')" if "r \<in> set roots" for r
        using i8 [OF that] st old by auto
    qed
    then show ?thesis using step st by auto
  next
    case pop1
    have p: "pending (stack t) = pending stk @ [k]" using pop1 st by simp
    have kv: "k \<in> visited t" using i3 p by auto
    have knot: "k \<notin> set (results t)" "k \<notin> set (pending stk)"
      using i4 i2 p by auto
    let ?t' = "t\<lparr>stack := stk, results := results t @ [k]\<rparr>"
    have step: "topo_step (\<lambda>k. Inr (f k)) t = Inr ?t'"
      using pop1 kv by (simp add: topo_step_pure [OF st])
    have "topo_inv f roots ?t'"
      unfolding topo_inv_def
    proof (intro conjI ballI)
      show "distinct (results ?t')" using i1 knot by simp
      show "distinct (pending (stack ?t'))" using i2 p by simp
      show "visited ?t' = set (results ?t') \<union> set (pending (stack ?t'))"
        using i3 p by auto
      show "set (results ?t') \<inter> set (pending (stack ?t')) = {}"
        using i4 p knot by auto
      show "visited ?t' \<subseteq> ?R" using i5 by auto
      show "fst ` set (stack ?t') \<subseteq> ?R" using i6 st by auto
      show "w \<in> visited ?t' \<or> (w, 0) \<in> set (stack ?t')"
        if "v \<in> visited ?t'" "w \<in> set (f v)" for v w
        using i7 [of v w] that st pop1 by auto
      show "r \<in> visited ?t' \<or> (r, 0) \<in> set (stack ?t')" if "r \<in> set roots" for r
        using i8 [OF that] st pop1 by auto
    qed
    then show ?thesis using step st by auto
  qed
qed

lemma topo_inv_final:
  assumes inv: "topo_inv f roots t" and e: "stack t = []"
  shows "distinct (results t) \<and> set (results t) = \<Union> (reach f ` set roots)"
proof -
  let ?R = "\<Union> (reach f ` set roots)"
  have v: "visited t = set (results t)" using inv e by (simp add: topo_inv_def)
  have sub: "visited t \<subseteq> ?R" using inv unfolding topo_inv_def by blast
  have closed: "\<And>v w. v \<in> visited t \<Longrightarrow> w \<in> set (f v) \<Longrightarrow> w \<in> visited t"
    using inv e unfolding topo_inv_def by fastforce
  have roots: "\<And>r. r \<in> set roots \<Longrightarrow> r \<in> visited t"
    using inv e unfolding topo_inv_def by fastforce
  have "?R \<subseteq> visited t"
  proof
    fix k assume "k \<in> ?R"
    then obtain r where r: "r \<in> set roots" "k \<in> reach f r" by auto
    have "reach f r \<subseteq> visited t"
      by (rule reach_closed [OF roots [OF r(1)]]) (rule closed)
    with r show "k \<in> visited t" by auto
  qed
  with sub v inv show ?thesis by (auto simp: topo_inv_def)
qed

lemma topoSort_partial:
  assumes "topoSort roots (\<lambda>k. Inr (f k)) = Some r"
  shows "\<exists>res. r = Inr res \<and> distinct res \<and> set res = \<Union> (reach f ` set roots)"
proof -
  let ?t0 = "\<lparr>results = [], visited = {}, stack = map (\<lambda>node. (node, 0)) roots\<rparr>"
  obtain w where w: "whileE (\<lambda>t. stack t \<noteq> []) (topo_step (\<lambda>k. Inr (f k))) ?t0 = Some w"
    using assms by (auto simp: topoSort_def bindR_def split: option.splits)
  have step: "\<And>t. topo_inv f roots t \<Longrightarrow> stack t \<noteq> []
      \<Longrightarrow> \<exists>t'. topo_step (\<lambda>k. Inr (f k)) t = Inr t' \<and> topo_inv f roots t'"
    using topo_inv_step by blast
  obtain t where t: "w = Inr t" "topo_inv f roots t" "\<not> stack t \<noteq> []"
    using whileE_rule [of "topo_inv f roots" ?t0 "\<lambda>t. stack t \<noteq> []"
        "topo_step (\<lambda>k. Inr (f k))" w, OF topo_inv_init step w]
    by blast
  have "r = Inr (results t)" using assms w t(1) by (simp add: topoSort_def bindR_def)
  with topo_inv_final [OF t(2)] t(3) show ?thesis by simp
qed

lemma topoSort_total:
  assumes fin: "finite (\<Union> (reach f ` set roots))"
  shows "\<exists>res. topoSort roots (\<lambda>k. Inr (f k)) = Some (Inr res)
               \<and> distinct res \<and> set res = \<Union> (reach f ` set roots)"
proof -
  let ?R = "\<Union> (reach f ` set roots)"
  let ?t0 = "\<lparr>results = [], visited = {}, stack = map (\<lambda>node. (node, 0)) roots\<rparr>"
  let ?rel = "inv_image (less_than <*lex*> less_than)
                (\<lambda>t :: 'a topo. (card (?R - visited t), length (stack t)))"
  have wf: "wf ?rel"
    by (intro wf_inv_image wf_lex_prod wf_less_than)
  have step: "\<And>t. topo_inv f roots t \<Longrightarrow> stack t \<noteq> []
      \<Longrightarrow> \<exists>t'. topo_step (\<lambda>k. Inr (f k)) t = Inr t' \<and> topo_inv f roots t' \<and> (t', t) \<in> ?rel"
  proof -
    fix t :: "'a topo" assume "topo_inv f roots t" "stack t \<noteq> []"
    from topo_inv_step [OF this] obtain t' where
      t': "topo_step (\<lambda>k. Inr (f k)) t = Inr t'" "topo_inv f roots t'"
      "(visited t \<subset> visited t' \<and> visited t' \<subseteq> ?R)
        \<or> (visited t' = visited t \<and> length (stack t') < length (stack t))"
      by blast
    have "card (?R - visited t') < card (?R - visited t)"
      if "visited t \<subset> visited t'" "visited t' \<subseteq> ?R"
      using that fin by (intro psubset_card_mono) auto
    then have "(t', t) \<in> ?rel" using t'(3) by auto
    with t' show "\<exists>t'. topo_step (\<lambda>k. Inr (f k)) t = Inr t' \<and> topo_inv f roots t' \<and> (t', t) \<in> ?rel"
      by blast
  qed
  obtain t where t: "whileE (\<lambda>t. stack t \<noteq> []) (topo_step (\<lambda>k. Inr (f k))) ?t0 = Some (Inr t)"
    "topo_inv f roots t" "\<not> stack t \<noteq> []"
    using whileE_terminates [of "topo_inv f roots" ?t0 "\<lambda>t. stack t \<noteq> []"
        "topo_step (\<lambda>k. Inr (f k))" ?rel, OF topo_inv_init step wf]
    by blast
  have "topoSort roots (\<lambda>k. Inr (f k)) = Some (Inr (results t))"
    using t(1) by (simp add: topoSort_def bindR_def)
  with topo_inv_final [OF t(2)] t(3) show ?thesis by simp
qed

lemma demo_run: "topoSort [0] (\<lambda>k. Inr (demo_succ k)) = Some (Inr [2, 1, 0])"
  by (simp add: topoSort_def whileE_unfold topo_step_def demo_succ_def bindR_def)

text \<open>
  Claim C8. For every root key and successor function, a sequence returned by
  \<open>topoSort\<close> holds every key reachable from the root exactly once and no other
  key, whatever the number of predecessors of a key and whether or not the graph
  has cycles; and \<open>topoSort\<close> returns whenever the set of reachable keys is finite.
\<close>

theorem topoSort_reachable:
  "(topoSort [r0] (\<lambda>k. Inr (f k)) = Some r
      \<longrightarrow> (\<exists>res. r = Inr res \<and> distinct res \<and> set res = reach f r0))
   \<and> (finite (reach f r0) \<longrightarrow> (\<exists>res. topoSort [r0] (\<lambda>k. Inr (f k)) = Some (Inr res)))"
  using topoSort_partial [of "[r0]" f r] topoSort_total [of f "[r0]"] by auto

theorem topoSort_reachable_witness:
  "topoSort [0] (\<lambda>k. Inr (demo_succ k)) = Some (Inr [2, 1, 0])
   \<and> distinct [2, 1, 0 :: nat] \<and> set [2, 1, 0] = reach demo_succ 0
   \<and> finite (reach demo_succ 0)"
proof -
  have eq: "set [2, 1, 0] = reach demo_succ 0"
    using topoSort_reachable [of 0 demo_succ "Inr [2, 1, 0]"] demo_run by simp
  have "finite (set [2, 1, 0 :: nat])" by simp
  then have "finite (reach demo_succ 0)" unfolding eq .
  with eq demo_run show ?thesis by simp
qed

lemma dict_get_nonneg:
  "\<forall>x\<in>set d. 0 \<le> snd x \<Longrightarrow> 0 \<le> (dict_get d k 0 :: real)"
  by (induction d) auto

lemma set_dict_set: "set (dict_set d k v) \<subseteq> insert (k, v) (set d)"
  by (induction d) (auto split: if_splits)

lemma dict_add_nonneg:
  assumes "\<forall>x\<in>set d. 0 \<le> snd x" "0 \<le> v"
  shows "\<forall>x\<in>set (dict_add d k v). 0 \<le> snd x"
proof
  fix x assume "x \<in> set (dict_add d k v)"
  then have "x \<in> insert (k, dict_get d k 0 + v) (set d)"
    using set_dict_set [of d k "dict_get d k 0 + v"] unfolding dict_add_def by (rule subsetD [rotated])
  moreover have "0 \<le> dict_get d k 0" using assms(1) by (rule dict_get_nonneg)
  ultimately show "0 \<le> snd x" using assms by auto
qed

lemma fold_dict_add_nonneg:
  "\<forall>x\<in>set acc. 0 \<le> snd x \<Longrightarrow> \<forall>y\<in>set xs. 0 \<le> h y
   \<Longrightarrow> \<forall>x\<in>set (fold (\<lambda>y d. dict_add d (g y) (h y)) xs acc). 0 \<le> snd x"
proof (induction xs arbitrary: acc)
  case Nil
  then show ?case by simp
next
  case (Cons y ys)
  have "\<forall>x\<in>set (dict_add acc (g y) (h y)). 0 \<le> snd x"
    using Cons.prems by (intro dict_add_nonneg) auto
  then show ?case using Cons.IH [of "dict_add acc (g y) (h y)"] Cons.prems(2) by simp
qed

lemma getCritDist_Inr:
  assumes "getCritDist L p A1 A2 D1 D2 B stb t = Inr d"
  shows "\<exists>nrm crt. d = fold (\<lambda>y dct. dict_add dct y (min p 1 / of_nat (length crt))) crt
       (fold (\<lambda>y dct. dict_add dct y ((1 - min p 1) / of_nat (length nrm))) nrm [])"
proof (cases "getDamages L A1 D1 B stb t")
  case (Inl e)
  then show ?thesis using assms by (simp add: getCritDist_def)
next
  case nrm: (Inr nrm)
  show ?thesis
  proof (cases "getDamages (L * 2) A2 D2 B stb t")
    case (Inl e)
    then show ?thesis using assms nrm by (simp add: getCritDist_def)
  next
    case crt: (Inr crt)
    have "nrm \<noteq> []" "crt \<noteq> []"
      using assms nrm crt by (auto simp: getCritDist_def Let_def split: if_splits)
    then have "d = fold (\<lambda>y dct. dict_add dct y (min p 1 / of_nat (length crt))) crt
       (fold (\<lambda>y dct. dict_add dct y ((1 - min p 1) / of_nat (length nrm))) nrm [])"
      using assms nrm crt by (simp add: getCritDist_def Let_def)
    then show ?thesis by blast
  qed
qed

lemma getCritDist_nonneg:
  assumes "getCritDist L p A1 A2 D1 D2 B stb t = Inr d" "0 \<le> p"
  shows "\<forall>x\<in>set d. 0 \<le> snd x"
proof -
  obtain nrm crt where d: "d = fold (\<lambda>y dct. dict_add dct y (min p 1 / of_nat (length crt))) crt
       (fold (\<lambda>y dct. dict_add dct y ((1 - min p 1) / of_nat (length nrm))) nrm [])"
    using getCritDist_Inr [OF assms(1)] by blast
  have a: "0 \<le> (1 - min p 1) / of_nat (length nrm)" by simp
  have b: "0 \<le> min p 1 / of_nat (length crt)" using assms(2) by simp
  have "\<forall>z\<in>set (fold (\<lambda>y dct. dict_add dct y ((1 - min p 1) / of_nat (length nrm))) nrm []).
      0 \<le> snd z"
    using a by (intro fold_dict_add_nonneg) auto
  then show ?thesis
    unfolding d using b by (intro fold_dict_add_nonneg) auto
qed

lemma applyActionSide1_attack:
  assumes "act \<noteq> ''Super Potion''" "attack_data act = Some m"
  shows "applyActionSide1 (me, them, extra) act =
     bindE (getCritDist (lvl (fixed me))
        (of_int (basespeed (fixed me)) / (if crit m then 64 else 512))
        (stat_at (halfstate_t.stats me) (if isspec m then 3 else 0))
        (stat_at (fixeddata_t.stats (fixed me)) (if isspec m then 3 else 0))
        (stat_at (halfstate_t.stats them) (if isspec m then 3 else 1))
        (stat_at (fixeddata_t.stats (fixed them)) (if isspec m then 3 else 1))
        (power m) (stab m) (te m))
      (\<lambda>dd. Inr (fold (\<lambda>y dct. dict_add dct (me, applyHPChange them (- fst y), extra) (snd y)) dd []))"
  using assms by (simp add: applyActionSide1_def case_prod_unfold Let_def)

lemma applyActionSide1_cases:
  assumes "applyActionSide1 (me, them, extra) act = Inr d"
  obtains (potion) "act = ''Super Potion''" "d = [((applyHPChange me 50, them, extra), 1)]"
  | (attack) m dd where "act \<noteq> ''Super Potion''" "attack_data act = Some m"
      "getCritDist (lvl (fixed me))
        (of_int (basespeed (fixed me)) / (if crit m then 64 else 512))
        (stat_at (halfstate_t.stats me) (if isspec m then 3 else 0))
        (stat_at (fixeddata_t.stats (fixed me)) (if isspec m then 3 else 0))
        (stat_at (halfstate_t.stats them) (if isspec m then 3 else 1))
        (stat_at (fixeddata_t.stats (fixed them)) (if isspec m then 3 else 1))
        (power m) (stab m) (te m) = Inr dd"
      "d = fold (\<lambda>y dct. dict_add dct (me, applyHPChange them (- fst y), extra) (snd y)) dd []"
proof (cases "act = ''Super Potion''")
  case True
  then show ?thesis using assms potion by (simp add: applyActionSide1_def)
next
  case False
  then obtain m where m: "attack_data act = Some m"
    using assms by (cases "attack_data act") (simp_all add: applyActionSide1_def)
  let ?g = "getCritDist (lvl (fixed me))
        (of_int (basespeed (fixed me)) / (if crit m then 64 else 512))
        (stat_at (halfstate_t.stats me) (if isspec m then 3 else 0))
        (stat_at (fixeddata_t.stats (fixed me)) (if isspec m then 3 else 0))
        (stat_at (halfstate_t.stats them) (if isspec m then 3 else 1))
        (stat_at (fixeddata_t.stats (fixed them)) (if isspec m then 3 else 1))
        (power m) (stab m) (te m)"
  have eq: "bindE ?g (\<lambda>dd. Inr (fold (\<lambda>y dct. dict_add dct (me, applyHPChange them (- fst y), extra) (snd y)) dd [])) = Inr d"
    using assms unfolding applyActionSide1_attack [OF False m] .
  show ?thesis
  proof (cases ?g)
    case (Inl e)
    then show ?thesis using eq by simp
  next
    case (Inr dd)
    then have "d = fold (\<lambda>y dct. dict_add dct (me, applyHPChange them (- fst y), extra) (snd y)) dd []"
      using eq by simp
    with Inr show ?thesis by (rule attack [OF False m])
  qed
qed

lemma applyActionSide1_keys:
  assumes "applyActionSide1 (me, them, extra) act = Inr d" "k \<in> fst ` set d"
  shows "(\<exists>c. k = (me, applyHPChange them c, extra)) \<or> (\<exists>c. k = (applyHPChange me c, them, extra))"
  using assms(1)
proof (cases rule: applyActionSide1_cases)
  case potion
  then show ?thesis using assms(2) by auto
next
  case (attack m dd)
  have "k \<in> (\<lambda>y. (me, applyHPChange them (- fst y), extra)) ` set dd"
    using assms(2) unfolding attack(4) set_keys_fold_dict_add by simp
  then show ?thesis by blast
qed

lemma applyActionSide1_nonneg:
  assumes "applyActionSide1 (me, them, extra) act = Inr d" "0 \<le> basespeed (fixed me)"
  shows "\<forall>x\<in>set d. 0 \<le> snd x"
  using assms(1)
proof (cases rule: applyActionSide1_cases)
  case potion
  then show ?thesis by simp
next
  case (attack m dd)
  have "0 \<le> real_of_int (basespeed (fixed me)) / (if crit m then 64 else 512)"
    using assms(2) by simp
  then have "\<forall>y\<in>set dd. 0 \<le> snd y"
    using getCritDist_nonneg [OF attack(3)] by blast
  then show ?thesis
    unfolding attack(4) by (intro fold_dict_add_nonneg) auto
qed

lemma applyAction_keys:
  assumes "applyAction (me, them, extra) side act = Inr d" "k \<in> fst ` set d"
  shows "(\<exists>c. k = (me, applyHPChange them c, extra)) \<or> (\<exists>c. k = (applyHPChange me c, them, extra))"
proof (cases "side = 0")
  case True
  then show ?thesis using assms applyActionSide1_keys by (simp add: applyAction_def)
next
  case False
  have eq: "applyAction (me, them, extra) side act
     = map_sum id (map (\<lambda>(k, v). (swap_sides k, v))) (applyActionSide1 (them, me, extra) act)"
    using applyAction_other_side [OF False, of "(me, them, extra)" act]
    by (simp add: swap_sides_def)
  then obtain d0 where d0: "applyActionSide1 (them, me, extra) act = Inr d0"
    "d = map (\<lambda>(k, v). (swap_sides k, v)) d0"
    using assms(1) by (cases "applyActionSide1 (them, me, extra) act") auto
  have "k \<in> swap_sides ` fst ` set d0"
    using assms(2) unfolding d0(2) by (force simp: image_iff case_prod_unfold)
  then obtain k0 where k0: "k0 \<in> fst ` set d0" "k = swap_sides k0"
    by blast
  from applyActionSide1_keys [OF d0(1) k0(1)] k0(2) show ?thesis
    by (auto simp: swap_sides_def)
qed

lemma applyAction_nonneg:
  assumes "applyAction (me, them, extra) side act = Inr d" "0 \<le> basespeed (fixed me)"
    "0 \<le> basespeed (fixed them)"
  shows "\<forall>x\<in>set d. 0 \<le> snd x"
proof (cases "side = 0")
  case True
  then show ?thesis using assms applyActionSide1_nonneg by (simp add: applyAction_def)
next
  case False
  have eq: "applyAction (me, them, extra) side act
     = map_sum id (map (\<lambda>(k, v). (swap_sides k, v))) (applyActionSide1 (them, me, extra) act)"
    using applyAction_other_side [OF False, of "(me, them, extra)" act]
    by (simp add: swap_sides_def)
  then obtain d0 where d0: "applyActionSide1 (them, me, extra) act = Inr d0"
    "d = map (\<lambda>(k, v). (swap_sides k, v)) d0"
    using assms(1) by (cases "applyActionSide1 (them, me, extra) act") auto
  from applyActionSide1_nonneg [OF d0(1) assms(3)] show ?thesis
    unfolding d0(2) by (auto simp: case_prod_unfold)
qed

lemma charhalf_simps:
  "fixed (charhalf\<lparr>hp := c\<rparr>) = charfixed" "maxhp charfixed = 63" "basespeed charfixed = 65"
  "hp (charhalf\<lparr>hp := c\<rparr>) = c"
  by (simp_all add: charhalf_def charfixed_def)

lemma starhalf_simps:
  "fixed (starhalf\<lparr>hp := c\<rparr>) = starfixed" "maxhp starfixed = 59" "basespeed starfixed = 115"
  "hp (starhalf\<lparr>hp := c\<rparr>) = c"
  by (simp_all add: starhalf_def starfixed_def)

lemma char_half_change: "char_half h \<Longrightarrow> char_half (applyHPChange h c)"
proof -
  assume a: "char_half h"
  then have h: "h = charhalf\<lparr>hp := hp h\<rparr>" by (simp add: char_half_def)
  have "applyHPChange h c = charhalf\<lparr>hp := min 63 (max 0 (hp h + c))\<rparr>"
    by (subst (1 2) h) (simp add: applyHPChange_def charhalf_simps)
  then show ?thesis by (simp add: char_half_def charhalf_simps)
qed

lemma star_half_change: "star_half h \<Longrightarrow> star_half (applyHPChange h c)"
proof -
  assume a: "star_half h"
  then have h: "h = starhalf\<lparr>hp := hp h\<rparr>" by (simp add: star_half_def)
  have "applyHPChange h c = starhalf\<lparr>hp := min 59 (max 0 (hp h + c))\<rparr>"
    by (subst (1 2) h) (simp add: applyHPChange_def starhalf_simps)
  then show ?thesis by (simp add: star_half_def starhalf_simps)
qed

lemma char_half_valid: "char_half h \<Longrightarrow> valid_half h \<and> 0 \<le> basespeed (fixed h)"
proof -
  assume "char_half h"
  then have h: "h = charhalf\<lparr>hp := hp h\<rparr>" by (simp add: char_half_def)
  have "valid_half (charhalf\<lparr>hp := c\<rparr>) \<and> 0 \<le> basespeed (fixed (charhalf\<lparr>hp := c\<rparr>))" for c
    by (simp add: valid_half_def positive_stats_def charhalf_def charfixed_def charbadges_def
        applyBadgeBoosts_def plus12_def)
  then show ?thesis by (subst (1 2) h) blast
qed

lemma star_half_valid: "star_half h \<Longrightarrow> valid_half h \<and> 0 \<le> basespeed (fixed h)"
proof -
  assume "star_half h"
  then have h: "h = starhalf\<lparr>hp := hp h\<rparr>" by (simp add: star_half_def)
  have "valid_half (starhalf\<lparr>hp := c\<rparr>) \<and> 0 \<le> basespeed (fixed (starhalf\<lparr>hp := c\<rparr>))" for c
    by (simp add: valid_half_def positive_stats_def starhalf_def starfixed_def)
  then show ?thesis by (subst (1 2) h) blast
qed

lemma battle_menu:
  "''Dig'' \<in> menu" "''Super Potion'' \<in> menu" "''Water Gun'' \<in> menu" "''Bubblebeam'' \<in> menu"
  by (simp_all add: menu_def)

lemma applyAction_battle:
  assumes "battle_state (me, them, extra)" "act \<in> menu"
  shows "\<exists>d. applyAction (me, them, extra) side act = Inr d \<and> sum_list (map snd d) = 1
           \<and> (\<forall>x\<in>set d. battle_state (fst x) \<and> 0 \<le> snd x)"
proof -
  have c: "char_half me" and s: "star_half them" and e: "extra = 0"
    using assms(1) by (simp_all add: battle_state_def)
  note vc = char_half_valid [OF c] and vs = star_half_valid [OF s]
  obtain d where d: "applyAction (me, them, extra) side act = Inr d" "sum_list (map snd d) = 1"
    using applyAction_sum [of me them act extra side] vc vs assms(2) by blast
  have nn: "\<forall>x\<in>set d. 0 \<le> snd x"
    using applyAction_nonneg [OF d(1)] vc vs by blast
  have "battle_state (fst x)" if "x \<in> set d" for x
  proof -
    have "fst x \<in> fst ` set d" using that by simp
    from applyAction_keys [OF d(1) this]
    show ?thesis
      using c s e char_half_change star_half_change by (auto simp: battle_state_def)
  qed
  with d nn show ?thesis by blast
qed

lemma battle_key_classify:
  "battle_key other \<Longrightarrow> battle_key (classify ns other)"
  by (simp add: classify_def win_def loss_def)

lemma set_sorted_pairs: "set (sorted_pairs l) = set l"
  by (simp add: sorted_pairs_def)

lemma distinct_map_insort_key:
  "distinct (map fst (insort_key f x xs)) \<longleftrightarrow> fst x \<notin> fst ` set xs \<and> distinct (map fst xs)"
  by (induction xs) (auto simp: set_insort_key)

lemma distinct_map_sort_key: "distinct (map fst (sort_key f xs)) = distinct (map fst xs)"
  by (induction xs) (auto simp: distinct_map_insort_key)

lemma distinct_sorted_pairs: "distinct (map fst (sorted_pairs l)) = distinct (map fst l)"
  by (simp add: sorted_pairs_def distinct_map_sort_key)

lemma fold_good_pairs:
  assumes "good_pairs acc" "\<forall>y\<in>set xs. battle_key (g y) \<and> 0 \<le> h y"
  shows "good_pairs (fold (\<lambda>y d. dict_add d (g y) (h y)) xs acc)"
proof -
  let ?r = "fold (\<lambda>y d. dict_add d (g y) (h y)) xs acc"
  have d: "distinct (map fst ?r)"
    using assms(1) by (intro distinct_fold_dict_add) (simp add: good_pairs_def)
  have n: "\<forall>x\<in>set ?r. 0 \<le> snd x"
    using assms by (intro fold_dict_add_nonneg) (auto simp: good_pairs_def)
  have k: "fst ` set ?r = fst ` set acc \<union> g ` set xs"
    by (rule set_keys_fold_dict_add)
  have "battle_key (fst x)" if "x \<in> set ?r" for x
  proof -
    have "fst x \<in> fst ` set acc \<union> g ` set xs" using that k by blast
    then show ?thesis using assms by (auto simp: good_pairs_def)
  qed
  with d n show ?thesis by (simp add: good_pairs_def)
qed

lemma applyActionPair_battle:
  assumes st: "battle_state (me, them, extra)" and act: "act1 \<in> menu"
    and oth: "\<forall>ns. battle_state ns \<longrightarrow> battle_key (Outcome ns side2 act2)"
    and good: "good_pairs dct" and pm: "0 \<le> pmult"
  shows "\<exists>d. applyActionPair (me, them, extra) side1 act1 side2 act2 dct pmult = Inr d
             \<and> sum_list (map snd d) = sum_list (map snd dct) + pmult \<and> good_pairs d"
proof -
  obtain items where i: "applyAction (me, them, extra) side1 act1 = Inr items"
    "sum_list (map snd items) = 1" "\<forall>x\<in>set items. battle_state (fst x) \<and> 0 \<le> snd x"
    using applyAction_battle [OF st act] by blast
  let ?g = "\<lambda>x :: gamestate \<times> real. classify (fst x) (Outcome (fst x) side2 act2)"
  let ?h = "\<lambda>x :: gamestate \<times> real. snd x * pmult"
  let ?d = "fold (\<lambda>x d. dict_add d (?g x) (?h x)) items dct"
  have eq: "applyActionPair (me, them, extra) side1 act1 side2 act2 dct pmult = Inr ?d"
    unfolding applyActionPair_def case_prod_unfold Let_def by (simp add: i(1))
  have "sum_list (map ?h items) = pmult"
    using i(2) by (simp add: sum_list_mult_const)
  then have s: "sum_list (map snd ?d) = sum_list (map snd dct) + pmult"
    by (simp add: sum_fold_dict_add)
  have "\<forall>y\<in>set items. battle_key (?g y) \<and> 0 \<le> ?h y"
    using i(3) oth pm by (auto intro!: battle_key_classify)
  with good have "good_pairs ?d" by (rule fold_good_pairs)
  with eq s show ?thesis by blast
qed

lemma getSuccessorsC_battle:
  assumes "battle_key (Outcome s side act)"
  shows "\<exists>l. getSuccessorsC (Outcome s side act) = Inr l \<and> sum_list (map snd l) = 1
             \<and> good_pairs l"
proof -
  obtain me them extra where s: "s = (me, them, extra)" by (cases s)
  have st: "battle_state (me, them, extra)" and act: "act \<in> menu"
    using assms by (auto simp: s battle_menu)
  obtain items where i: "applyAction (me, them, extra) side act = Inr items"
    "sum_list (map snd items) = 1" "\<forall>x\<in>set items. battle_state (fst x) \<and> 0 \<le> snd x"
    using applyAction_battle [OF st act] by blast
  let ?g = "\<lambda>x :: gamestate \<times> real. classify (fst x) (Propose (fst x))"
  let ?d = "fold (\<lambda>x d. dict_add d (?g x) (snd x)) items []"
  have eq: "getSuccessorsC (Outcome s side act) = Inr (sorted_pairs ?d)"
    unfolding s getSuccessorsC.simps case_prod_unfold Let_def by (simp add: i(1))
  have sum: "sum_list (map snd ?d) = 1" using i(2) by (simp add: sum_fold_dict_add)
  have "\<forall>y\<in>set items. battle_key (?g y) \<and> 0 \<le> snd y"
    using i(3) by (auto intro!: battle_key_classify)
  then have "good_pairs ?d"
    by (intro fold_good_pairs) (simp_all add: good_pairs_def)
  then have "good_pairs (sorted_pairs ?d)"
    by (simp add: good_pairs_def set_sorted_pairs distinct_sorted_pairs)
  with eq sum show ?thesis by (simp add: sum_sorted_pairs)
qed

lemma getSuccessorsB_battle:
  assumes "battle_key (Resolve s act)"
  shows "\<exists>l. getSuccessorsB (Resolve s act) = Inr l \<and> sum_list (map snd l) = 1
             \<and> good_pairs l"
proof -
  obtain me them extra where s: "s = (me, them, extra)" by (cases s)
  let ?st = "(me, them, extra)"
  have st: "battle_state ?st" and act: "act \<in> menu" and act': "act = ''Dig'' \<or> act = ''Super Potion''"
    using assms by (auto simp: s battle_menu)
  define step where "step = (\<lambda>(eact, p) dct.
              let priority1 = speed (halfstate_t.stats (fst ?st))
                              + (if act = ''Super Potion'' then 10000 else 0);
                  priority2 = speed (halfstate_t.stats (fst (snd ?st)))
              in if priority1 > priority2 then
                   applyActionPair ?st 0 act 1 eact dct p
                 else if priority1 < priority2 then
                   applyActionPair ?st 1 eact 0 act dct p
                 else
                   bindE (applyActionPair ?st 0 act 1 eact dct (p * (1 / 2))) (\<lambda>dct.
                   applyActionPair ?st 1 eact 0 act dct (p * (1 / 2))))"
  have step_ok: "\<exists>d. step (eact, p) dct = Inr d
                      \<and> sum_list (map snd d) = sum_list (map snd dct) + p \<and> good_pairs d"
    if eact: "eact = ''Water Gun'' \<or> eact = ''Bubblebeam''" and g: "good_pairs dct" and p: "0 \<le> p"
    for eact p dct
  proof -
    have em: "eact \<in> menu" using eact battle_menu by auto
    have o1: "\<forall>ns. battle_state ns \<longrightarrow> battle_key (Outcome ns 1 eact)" using eact by auto
    have o0: "\<forall>ns. battle_state ns \<longrightarrow> battle_key (Outcome ns 0 act)" using act' by auto
    have p2: "0 \<le> p * (1 / 2)" using p by simp
    note A = applyActionPair_battle [OF st act o1, of _ _ 0]
    note B = applyActionPair_battle [OF st em o0, of _ _ 1]
    obtain d1 where d1: "applyActionPair ?st 0 act 1 eact dct (p * (1 / 2)) = Inr d1"
      "sum_list (map snd d1) = sum_list (map snd dct) + p * (1 / 2)" "good_pairs d1"
      using A [OF g p2] by blast
    obtain d2 where d2: "applyActionPair ?st 1 eact 0 act d1 (p * (1 / 2)) = Inr d2"
      "sum_list (map snd d2) = sum_list (map snd d1) + p * (1 / 2)" "good_pairs d2"
      using B [OF d1(3) p2] by blast
    consider (gt) "speed (halfstate_t.stats me) + (if act = ''Super Potion'' then 10000 else 0)
                    > speed (halfstate_t.stats them)"
      | (lt) "speed (halfstate_t.stats me) + (if act = ''Super Potion'' then 10000 else 0)
                    < speed (halfstate_t.stats them)"
      | (eq) "speed (halfstate_t.stats me) + (if act = ''Super Potion'' then 10000 else 0)
                    = speed (halfstate_t.stats them)"
      by linarith
    then show ?thesis
    proof cases
      case gt
      then show ?thesis using A [OF g p] by (simp add: step_def Let_def)
    next
      case lt
      then show ?thesis using B [OF g p] by (simp add: step_def Let_def)
    next
      case eq
      then show ?thesis using d1 d2 by (simp add: step_def Let_def)
    qed
  qed
  have g0: "good_pairs []" by (simp add: good_pairs_def)
  obtain da where da: "step (''Water Gun'', 64 / 130) [] = Inr da"
    "sum_list (map snd da) = 64 / 130" "good_pairs da"
    using step_ok [of "''Water Gun''" "[]" "64 / 130", OF _ g0] by auto
  obtain db where db: "step (''Bubblebeam'', 66 / 130) da = Inr db"
    "sum_list (map snd db) = sum_list (map snd da) + 66 / 130" "good_pairs db"
    using step_ok [of "''Bubblebeam''" da "66 / 130", OF _ da(3)] by auto
  have eq: "getSuccessorsB (Resolve s act)
        = bindE (foldE step [(''Water Gun'', 64 / 130), (''Bubblebeam'', 66 / 130)] [])
            (\<lambda>dct. Inr (sorted_pairs dct))"
    by (simp add: step_def s)
  have "good_pairs (sorted_pairs db)"
    using db(3) by (simp add: good_pairs_def set_sorted_pairs distinct_sorted_pairs)
  then show ?thesis
    unfolding eq using da db by (simp add: sum_sorted_pairs)
qed

lemma whileE_cong_inv:
  fixes s :: 's
  assumes "P s"
    and agree: "\<And>s. P s \<Longrightarrow> b s \<Longrightarrow> c s = c' s"
    and step: "\<And>s. P s \<Longrightarrow> b s \<Longrightarrow> \<exists>s'. c' s = Inr s' \<and> P s'"
  shows "whileE b c s = whileE b c' s"
proof -
  let ?B = "\<lambda>r :: error + 's. case r of Inl e \<Rightarrow> False | Inr s \<Rightarrow> b s"
  let ?P = "\<lambda>r :: error + 's. \<exists>s. r = Inr s \<and> P s"
  have "map_option id (while_option ?B (\<lambda>r. bindE r c) (Inr s))
        = while_option ?B (\<lambda>r. bindE r c') (id (Inr s))"
  proof (rule while_option_commute_invariant [where P = ?P])
    fix r assume "?P r" "?B r"
    then obtain s0 where r: "r = Inr s0" "P s0" "b s0" by auto
    from step [OF r(2,3)] agree [OF r(2,3)] show "?P (bindE r c)" by (auto simp: r(1))
    from agree [OF r(2,3)] show "id (bindE r c) = bindE (id r) c'" by (simp add: r(1))
  next
    fix r assume "?P r" show "?B r = ?B (id r)" by simp
  next
    show "?P (Inr s)" using assms(1) by simp
  qed
  then show ?thesis by (simp add: whileE_def option.map_id)
qed

lemma topo_step_cong:
  assumes "stack t \<noteq> []" "gp (fst (last (stack t))) = gp' (fst (last (stack t)))"
  shows "topo_step gp t = topo_step gp' t"
  using assms by (simp add: topo_step_def case_prod_unfold Let_def)

lemma topoSort_agree:
  assumes "\<forall>k\<in>\<Union> (reach f ` set roots). gp k = Inr (f k)"
  shows "topoSort roots gp = topoSort roots (\<lambda>k. Inr (f k))"
proof -
  let ?t0 = "\<lparr>results = [], visited = {}, stack = map (\<lambda>node. (node, 0)) roots\<rparr>"
  have "whileE (\<lambda>t. stack t \<noteq> []) (topo_step gp) ?t0
      = whileE (\<lambda>t. stack t \<noteq> []) (topo_step (\<lambda>k. Inr (f k))) ?t0"
  proof (rule whileE_cong_inv [where P = "topo_inv f roots"])
    show "topo_inv f roots ?t0" by (rule topo_inv_init)
  next
    fix t :: "'a topo" assume inv: "topo_inv f roots t" and ne: "stack t \<noteq> []"
    have "last (stack t) \<in> set (stack t)" using ne by simp
    then have "fst (last (stack t)) \<in> \<Union> (reach f ` set roots)"
      using inv unfolding topo_inv_def by blast
    then have "gp (fst (last (stack t))) = Inr (f (fst (last (stack t))))"
      using assms by blast
    then show "topo_step gp t = topo_step (\<lambda>k. Inr (f k)) t"
      by (intro topo_step_cong [OF ne]) 
    show "\<exists>t'. topo_step (\<lambda>k. Inr (f k)) t = Inr t' \<and> topo_inv f roots t'"
      using topo_inv_step [OF inv ne] by blast
  qed
  then show ?thesis by (simp add: topoSort_def)
qed

lemma getSuccessors_battle:
  assumes "battle_key k" "tag k \<noteq> 4"
  shows "(\<exists>s. k = Propose s \<and> getSuccessors k = Inr (States [Resolve s ''Dig'', Resolve s ''Super Potion'']))
       \<or> (tag k \<noteq> 0 \<and> (\<exists>l. getSuccessors k = Inr (Pairs l) \<and> sum_list (map snd l) = 1 \<and> good_pairs l))"
proof (cases k)
  case (Propose s)
  then show ?thesis by (cases s) (simp add: getSuccessors_def)
next
  case (Resolve s a)
  with getSuccessorsB_battle [of s a] assms show ?thesis
    by (auto simp: getSuccessors_def)
next
  case (Outcome s side a)
  with getSuccessorsC_battle [of s side a] assms show ?thesis
    by (auto simp: getSuccessors_def)
next
  case (Terminal b)
  then show ?thesis using assms by simp
qed

lemma getSuccessorsList_battle:
  assumes "battle_key k"
  shows "getSuccessorsList k = Inr (succ_keys k) \<and> (\<forall>k'\<in>set (succ_keys k). battle_key k')"
proof (cases "tag k = 4")
  case True
  then show ?thesis by (simp add: getSuccessorsList_def succ_keys_def)
next
  case False
  from getSuccessors_battle [OF assms False] show ?thesis
  proof
    assume "\<exists>s. k = Propose s \<and> getSuccessors k = Inr (States [Resolve s ''Dig'', Resolve s ''Super Potion''])"
    then show ?thesis using assms False
      by (auto simp: getSuccessorsList_def succ_keys_def)
  next
    assume "tag k \<noteq> 0 \<and> (\<exists>l. getSuccessors k = Inr (Pairs l) \<and> sum_list (map snd l) = 1 \<and> good_pairs l)"
    then show ?thesis using False
      by (auto simp: getSuccessorsList_def succ_keys_def good_pairs_def)
  qed
qed

lemma finite_battle_states: "finite {s. battle_state s}"
proof -
  let ?S = "(\<lambda>(c, h). (charhalf\<lparr>hp := c\<rparr>, starhalf\<lparr>hp := h\<rparr>, 0::int)) ` ({0..63} \<times> {0..59})"
  have "{s. battle_state s} \<subseteq> ?S"
  proof
    fix s assume "s \<in> {s. battle_state s}"
    then obtain me them where s: "s = (me, them, 0)" "char_half me" "star_half them"
      by (cases s) (auto simp: battle_state_def)
    then have "s = (\<lambda>(c, h). (charhalf\<lparr>hp := c\<rparr>, starhalf\<lparr>hp := h\<rparr>, 0::int)) (hp me, hp them)"
      "(hp me, hp them) \<in> {0..63} \<times> {0..59}"
      by (auto simp: char_half_def star_half_def)
    then show "s \<in> ?S" by (rule image_eqI)
  qed
  moreover have "finite ?S" by simp
  ultimately show ?thesis by (rule finite_subset)
qed

lemma finite_battle_keys: "finite {k. battle_key k}"
proof -
  let ?S = "{s. battle_state s}"
  let ?A = "{''Dig'', ''Super Potion'', ''Water Gun'', ''Bubblebeam''}"
  let ?U = "Propose ` ?S \<union> (\<lambda>(s, a). Resolve s a) ` (?S \<times> ?A)
            \<union> (\<lambda>(s, sd, a). Outcome s sd a) ` (?S \<times> {0, 1} \<times> ?A) \<union> range Terminal"
  have "{k. battle_key k} \<subseteq> ?U"
  proof
    fix k assume k: "k \<in> {k. battle_key k}"
    show "k \<in> ?U"
    proof (cases k)
      case (Propose s)
      then show ?thesis using k by simp
    next
      case (Resolve s a)
      then have "(s, a) \<in> ?S \<times> ?A" using k by auto
      then have "k \<in> (\<lambda>(s, a). Resolve s a) ` (?S \<times> ?A)"
        unfolding Resolve by (intro image_eqI [where x = "(s, a)"]) simp_all
      then show ?thesis by blast
    next
      case (Outcome s sd a)
      then have "(s, sd, a) \<in> ?S \<times> {0, 1} \<times> ?A" using k by auto
      then have "k \<in> (\<lambda>(s, sd, a). Outcome s sd a) ` (?S \<times> {0, 1} \<times> ?A)"
        unfolding Outcome by (intro image_eqI [where x = "(s, sd, a)"]) simp_all
      then show ?thesis by blast
    next
      case (Terminal b)
      then show ?thesis by simp
    qed
  qed
  moreover have "finite ?U" using finite_battle_states by simp
  ultimately show ?thesis by (rule finite_subset)
qed

lemma battle_key_initial: "battle_key initial_statep"
  by (simp add: initial_statep_def initial_state_def battle_state_def char_half_def
      star_half_def charhalf_def starhalf_def)

lemma reach_battle: "reach succ_keys initial_statep \<subseteq> {k. battle_key k}"
  by (rule reach_closed) (use battle_key_initial getSuccessorsList_battle in auto)

lemma topoSort_battle:
  "\<exists>stateps. topoSort [initial_statep] getSuccessorsList = Some (Inr stateps)
      \<and> distinct stateps \<and> set stateps = reach succ_keys initial_statep"
proof -
  have "\<forall>k\<in>\<Union> (reach succ_keys ` set [initial_statep]). getSuccessorsList k = Inr (succ_keys k)"
    using reach_battle getSuccessorsList_battle by auto
  then have "topoSort [initial_statep] getSuccessorsList
             = topoSort [initial_statep] (\<lambda>k. Inr (succ_keys k))"
    by (rule topoSort_agree)
  moreover have "finite (\<Union> (reach succ_keys ` set [initial_statep]))"
    using reach_battle finite_battle_keys by (auto intro: finite_subset)
  ultimately show ?thesis using topoSort_total [of succ_keys "[initial_statep]"] by simp
qed

lemma update2_frozen [simp]: "sp \<in> frozen s \<Longrightarrow> update2 s sp = Inr s"
  by (simp add: update2_def)

lemma update2_choice:
  assumes "sp \<notin> frozen s" "tag sp = 0" "getSuccessors sp = Inr (States l)"
  shows "update2 s sp = (case choice_bounds s l of
            (Some lo, Some hi) \<Rightarrow> Inr (freeze2 (set_bounds2 s sp lo hi) sp)
          | _ \<Rightarrow> Inl NegInfStored)"
  using assms
  by (simp add: update2_def choice_bounds_def set_bounds2_def store_best_def
      split: prod.splits option.splits)

lemma update2_chance:
  assumes "sp \<notin> frozen s" "tag sp \<noteq> 0" "getSuccessors sp = Inr (Pairs l)"
  shows "update2 s sp = Inr (freeze2 (set_bounds2 s sp (fst (chance_bounds s l))
                                  (snd (chance_bounds s l))) sp)"
  using assms
  by (simp add: update2_def chance_bounds_def set_bounds2_def split: prod.splits)

lemma update2_Inr:
  assumes "update2 s sp = Inr s'" "sp \<notin> frozen s"
  shows "\<exists>lo hi. s' = freeze2 (set_bounds2 s sp lo hi) sp"
proof (cases "getSuccessors sp")
  case (Inl e)
  then show ?thesis using assms by (simp add: update2_def)
next
  case (Inr sc)
  show ?thesis
  proof (cases "tag sp = 0")
    case True
    show ?thesis
    proof (cases sc)
      case (States l)
      show ?thesis
        using assms(1) unfolding update2_choice [OF assms(2) True Inr [unfolded States]]
        by (auto split: prod.splits option.splits)
    next
      case (Pairs l)
      then show ?thesis using assms True Inr by (simp add: update2_def)
    qed
  next
    case False
    show ?thesis
    proof (cases sc)
      case (States l)
      then show ?thesis using assms False Inr by (simp add: update2_def)
    next
      case (Pairs l)
      show ?thesis
        using assms(1) unfolding update2_chance [OF assms(2) False Inr [unfolded Pairs]]
        by auto
    qed
  qed
qed

lemma freeze2_other:
  "k \<noteq> sp \<Longrightarrow> dmin (freeze2 s sp) k = dmin s k \<and> dmax (freeze2 s sp) k = dmax s k
     \<and> (k \<in> frozen (freeze2 s sp) \<longleftrightarrow> k \<in> frozen s)"
  by (simp add: freeze2_def Let_def)

lemma set_bounds2_other:
  "k \<noteq> sp \<Longrightarrow> dmin (set_bounds2 s sp lo hi) k = dmin s k \<and> dmax (set_bounds2 s sp lo hi) k = dmax s k"
  by (simp add: set_bounds2_def)

lemma frozen_set_bounds2 [simp]: "frozen (set_bounds2 s sp lo hi) = frozen s"
  by (simp add: set_bounds2_def)

lemma update2_keeps_frozen:
  assumes "update2 s sp = Inr s'" "k \<in> frozen s"
  shows "k \<in> frozen s' \<and> dmin s' k = dmin s k \<and> dmax s' k = dmax s k"
proof (cases "sp \<in> frozen s")
  case True
  then show ?thesis using assms by simp
next
  case False
  then have ne: "k \<noteq> sp" using assms(2) by auto
  obtain lo hi where "s' = freeze2 (set_bounds2 s sp lo hi) sp"
    using update2_Inr [OF assms(1) False] by blast
  then show ?thesis
    using freeze2_other [OF ne, of "set_bounds2 s sp lo hi"] set_bounds2_other [OF ne, of s lo hi]
      assms(2) by simp
qed

lemma sweep2_keeps_frozen:
  "sweep2 stateps s = Inr s' \<Longrightarrow> k \<in> frozen s
   \<Longrightarrow> k \<in> frozen s' \<and> dmin s' k = dmin s k \<and> dmax s' k = dmax s k"
proof (induction stateps arbitrary: s)
  case Nil
  then show ?case by (simp add: sweep2_def)
next
  case (Cons sp stateps)
  from Cons.prems(1) obtain s1 where s1: "update2 s sp = Inr s1" "sweep2 stateps s1 = Inr s'"
    by (auto simp: sweep2_def bindE_Inr_iff)
  from update2_keeps_frozen [OF s1(1) Cons.prems(2)] Cons.IH [OF s1(2)] show ?case by simp
qed

lemma sweep2_run2: "run2 s \<Longrightarrow> sweep2 stateps s = Inr s' \<Longrightarrow> run2 s'"
proof (induction stateps arbitrary: s)
  case Nil
  then show ?case by (simp add: sweep2_def)
next
  case (Cons sp stateps)
  from Cons.prems(2) obtain s1 where s1: "update2 s sp = Inr s1" "sweep2 stateps s1 = Inr s'"
    by (auto simp: sweep2_def bindE_Inr_iff)
  from Cons.IH [OF run2_step [OF Cons.prems(1) s1(1)] s1(2)] show ?case .
qed

lemma run2_terminals:
  "run2 s \<Longrightarrow> dmin s loss = 0 \<and> dmax s loss = 0 \<and> dmin s win = 1 \<and> dmax s win = 1
      \<and> win \<in> frozen s \<and> loss \<in> frozen s"
proof (induction rule: run2.induct)
  case run2_init
  show ?case by (simp add: Battle_init_def win_def loss_def)
next
  case (run2_step s sp s')
  then show ?case using update2_keeps_frozen [OF run2_step.hyps(2)] by metis
qed

lemma whileE_run2:
  assumes "whileE b (sweep2 stateps) Battle_init = Some r"
  shows "case r of Inl e \<Rightarrow> True | Inr t \<Rightarrow> run2 t"
proof -
  let ?B = "\<lambda>r :: error + vstate. case r of Inl e \<Rightarrow> False | Inr s \<Rightarrow> b s"
  let ?P = "\<lambda>r :: error + vstate. case r of Inl e \<Rightarrow> True | Inr t \<Rightarrow> run2 t"
  have w: "while_option ?B (\<lambda>r. bindE r (sweep2 stateps)) (Inr Battle_init) = Some r"
    using assms by (simp add: whileE_def)
  show ?thesis
  proof (rule while_option_rule [where P = ?P, OF _ w])
    show "?P (Inr Battle_init)" by (simp add: run2_init)
  next
    fix x assume "?P x" "?B x"
    then obtain s where "x = Inr s" "run2 s" by (cases x) auto
    then show "?P (bindE x (sweep2 stateps))"
      using sweep2_run2 by (cases "sweep2 stateps s") auto
  qed
qed

text \<open>
  Claim C3. In every state of a run of \<open>Battle.evaluate\<close> the loss key has the bounds
  \<open>(0, 0)\<close>, the win key has the bounds \<open>(1, 1)\<close> and both are frozen (from
  \<open>Battle.__init__\<close> on, so before the first sweep); a key that is frozen keeps its
  bounds and stays frozen through every later step and every later sweep; and the
  state in which the loop of \<open>evaluate\<close> ends is a state of such a run.
\<close>

theorem frozen_bounds_fixed:
  "(run2 s \<longrightarrow>
      dmin s loss = 0 \<and> dmax s loss = 0 \<and> dmin s win = 1 \<and> dmax s win = 1
      \<and> win \<in> frozen s \<and> loss \<in> frozen s)
   \<and> (update2 s sp = Inr s' \<and> k \<in> frozen s
        \<longrightarrow> k \<in> frozen s' \<and> dmin s' k = dmin s k \<and> dmax s' k = dmax s k)
   \<and> (sweep2 stateps s = Inr s' \<and> k \<in> frozen s
        \<longrightarrow> k \<in> frozen s' \<and> dmin s' k = dmin s k \<and> dmax s' k = dmax s k)
   \<and> (run2 s \<and> sweep2 stateps s = Inr s' \<longrightarrow> run2 s')
   \<and> (whileE b (sweep2 stateps) Battle_init = Some (Inr t) \<longrightarrow> run2 t)"
  using run2_terminals [of s] update2_keeps_frozen [of s sp s' k]
    sweep2_keeps_frozen [of stateps s s' k] sweep2_run2 [of s stateps s']
    whileE_run2 [of b stateps "Inr t"]
  by simp

lemma update2_initial:
  "update2 Battle_init initial_statep = Inr (Battle_init\<lparr>dmin := (dmin Battle_init)(initial_statep := 0),
        dmax := (dmax Battle_init)(initial_statep := 1)\<rparr>)"
  by (simp add: update2_def Battle_init_def initial_statep_def win_def loss_def getSuccessors_def
      raise_best_def store_best_def freeze2_def)

theorem frozen_bounds_fixed_witness:
  "run2 Battle_init
   \<and> dmin Battle_init loss = 0 \<and> dmax Battle_init loss = 0
   \<and> dmin Battle_init win = 1 \<and> dmax Battle_init win = 1
   \<and> win \<in> frozen Battle_init \<and> loss \<in> frozen Battle_init
   \<and> update2 Battle_init initial_statep
        = Inr (Battle_init\<lparr>dmin := (dmin Battle_init)(initial_statep := 0),
                           dmax := (dmax Battle_init)(initial_statep := 1)\<rparr>)
   \<and> win \<in> frozen (Battle_init\<lparr>dmin := (dmin Battle_init)(initial_statep := 0),
                                  dmax := (dmax Battle_init)(initial_statep := 1)\<rparr>)
   \<and> dmin (Battle_init\<lparr>dmin := (dmin Battle_init)(initial_statep := 0),
                         dmax := (dmax Battle_init)(initial_statep := 1)\<rparr>) win = 1"
  using frozen_bounds_fixed [of Battle_init initial_statep
      "Battle_init\<lparr>dmin := (dmin Battle_init)(initial_statep := 0),
                   dmax := (dmax Battle_init)(initial_statep := 1)\<rparr>" win "[]" "\<lambda>_. False" Battle_init]
    run2_init update2_initial
  by simp

lemma evaluate2_wide:
  assumes "1 \<le> tolerance"
  shows "evaluate2 tolerance = Some (Inr (1 / 2))"
proof -
  obtain stateps where t: "topoSort [initial_statep] getSuccessorsList = Some (Inr stateps)"
    using topoSort_battle by blast
  have i: "dmax Battle_init initial_statep = 1" "dmin Battle_init initial_statep = 0"
    by (simp_all add: Battle_init_def initial_statep_def win_def loss_def)
  have "whileE (\<lambda>s. dmax s initial_statep - dmin s initial_statep > tolerance)
          (sweep2 stateps) Battle_init = Some (Inr Battle_init)"
    using assms by (subst whileE_unfold) (simp add: i)
  then show ?thesis by (simp add: evaluate2_def t bindR_def i)
qed







lemma ids_ok_dom: "ids_ok b \<Longrightarrow> dom (id_of b) = set (states b)"
  unfolding ids_ok_def by (auto simp: in_set_conv_nth dom_def)

lemma ids_ok_lookup: "ids_ok b \<Longrightarrow> i < length (states b) \<Longrightarrow> id_of b (states b ! i) = Some i"
  unfolding ids_ok_def by blast

lemma ids_ok_bound: "ids_ok b \<Longrightarrow> id_of b k = Some i \<Longrightarrow> i < length (states b) \<and> states b ! i = k"
  unfolding ids_ok_def by blast

lemma discover_old:
  "id_of b k = Some j \<Longrightarrow> discover k b = (b, j)"
  by (simp add: discover_def)

lemma discover_new:
  "id_of b k = None \<Longrightarrow> discover k b =
     (b\<lparr>id_of := (id_of b)(k \<mapsto> length (states b)), states := states b @ [k], q := q b @ [k]\<rparr>,
      length (states b))"
  by (simp add: discover_def)

lemma ids_ok_new:
  assumes "ids_ok b" "id_of b k = None"
  shows "ids_ok (b\<lparr>id_of := (id_of b)(k \<mapsto> length (states b)), states := states b @ [k],
                   q := q b @ [k]\<rparr>)"
proof -
  have notin: "k \<notin> set (states b)" using assms ids_ok_dom by (metis domIff)
  have d: "distinct (states b @ [k])" using assms(1) notin by (simp add: ids_ok_def)
  have "((id_of b)(k \<mapsto> length (states b))) k' = Some i
        \<longleftrightarrow> i < length (states b @ [k]) \<and> (states b @ [k]) ! i = k'" for k' i
  proof (cases "k' = k")
    case True
    have "i < length (states b) \<Longrightarrow> states b ! i \<noteq> k" using notin by (metis nth_mem)
    then show ?thesis using True by (auto simp: nth_append)
  next
    case False
    then show ?thesis
      using assms(1) unfolding ids_ok_def by (auto simp: nth_append)
  qed
  with d show ?thesis by (simp add: ids_ok_def)
qed

lemma discover_props:
  assumes "ids_ok b" "discover k b = (b', j)"
  shows "ids_ok b' \<and> id_of b' k = Some j \<and> id_of b \<subseteq>\<^sub>m id_of b'
       \<and> (\<exists>new. states b' = states b @ new \<and> q b' = q b @ new \<and> set new \<subseteq> {k})
       \<and> kinds b' = kinds b \<and> succ_states b' = succ_states b \<and> succ_pairs b' = succ_pairs b"
proof (cases "id_of b k")
  case None
  let ?b = "b\<lparr>id_of := (id_of b)(k \<mapsto> length (states b)), states := states b @ [k], q := q b @ [k]\<rparr>"
  have b': "b' = ?b" "j = length (states b)" using assms(2) discover_new [OF None] by auto
  have "id_of b \<subseteq>\<^sub>m id_of ?b" using None by (auto simp: map_le_def)
  moreover have "\<exists>new. states ?b = states b @ new \<and> q ?b = q b @ new \<and> set new \<subseteq> {k}"
    by (rule exI [where x = "[k]"]) simp
  ultimately show ?thesis using ids_ok_new [OF assms(1) None] unfolding b' by simp
next
  case (Some i)
  then have "b' = b" "j = i" using assms(2) discover_old [OF Some] by simp_all
  then show ?thesis using assms(1) Some by simp
qed

lemma discover_list_props:
  assumes "ids_ok b" "discover_list key mk xs (b, acc) = (b', acc')"
  shows "ids_ok b' \<and> id_of b \<subseteq>\<^sub>m id_of b'
       \<and> (\<exists>new. states b' = states b @ new \<and> q b' = q b @ new \<and> set new \<subseteq> key ` set xs)
       \<and> kinds b' = kinds b \<and> succ_states b' = succ_states b \<and> succ_pairs b' = succ_pairs b
       \<and> key ` set xs \<subseteq> dom (id_of b')
       \<and> acc' = acc @ map (\<lambda>x. mk x (the (id_of b' (key x)))) xs"
  using assms
proof (induction xs arbitrary: b acc)
  case Nil
  then show ?case by (simp add: discover_list_def)
next
  case (Cons x xs)
  obtain b1 j where d: "discover (key x) b = (b1, j)" by (cases "discover (key x) b")
  have rest: "discover_list key mk xs (b1, acc @ [mk x j]) = (b', acc')"
    using Cons.prems(2) d by (simp add: discover_list_def)
  note p1 = discover_props [OF Cons.prems(1) d]
  then have ok1: "ids_ok b1" by blast
  note p2 = Cons.IH [OF ok1 rest]
  from p1 obtain new1 where n1: "states b1 = states b @ new1" "q b1 = q b @ new1" "set new1 \<subseteq> {key x}"
    by blast
  from p2 obtain new2 where n2: "states b' = states b1 @ new2" "q b' = q b1 @ new2"
    "set new2 \<subseteq> key ` set xs"
    by blast
  have le: "id_of b \<subseteq>\<^sub>m id_of b'" using p1 p2 map_le_trans by blast
  have jx: "id_of b' (key x) = Some j"
    using p1 p2 by (metis domI map_le_def)
  have new: "\<exists>new. states b' = states b @ new \<and> q b' = q b @ new \<and> set new \<subseteq> key ` set (x # xs)"
    by (rule exI [where x = "new1 @ new2"]) (use n1 n2 in auto)
  have dom: "key ` set (x # xs) \<subseteq> dom (id_of b')" using jx p2 by auto
  have acc: "acc' = acc @ map (\<lambda>x. mk x (the (id_of b' (key x)))) (x # xs)"
    using p2 jx by simp
  from p1 p2 le new dom acc show ?case by simp
qed

lemma map_le_the: "m \<subseteq>\<^sub>m m' \<Longrightarrow> k \<in> dom m \<Longrightarrow> the (m' k) = the (m k)"
  by (auto simp: map_le_def dom_def)

lemma map_le_dom: "m \<subseteq>\<^sub>m m' \<Longrightarrow> dom m \<subseteq> dom m'"
  by (rule map_le_implies_dom_le)

lemma entry_ok_mono:
  assumes e: "entry_ok b i" and i: "i < length (kinds b)" "i < length (states b)"
    and len: "length (succ_states b) = length (kinds b)" "length (succ_pairs b) = length (kinds b)"
    and st: "states b' = states b @ new" and le: "id_of b \<subseteq>\<^sub>m id_of b'"
    and k: "kinds b' = kinds b @ ks" and ss: "succ_states b' = succ_states b @ ss'"
    and sp: "succ_pairs b' = succ_pairs b @ ps'"
  shows "entry_ok b' i"
proof -
  have n: "states b' ! i = states b ! i" "kinds b' ! i = kinds b ! i"
    "succ_states b' ! i = succ_states b ! i" "succ_pairs b' ! i = succ_pairs b ! i"
    using i len by (simp_all add: st k ss sp nth_append)
  let ?k = "states b ! i"
  show ?thesis
  proof (cases "tag ?k = 4")
    case True
    then show ?thesis using e by (simp add: entry_ok_def Let_def n)
  next
    case False
    show ?thesis
    proof (cases "getSuccessors ?k")
      case (Inl err)
      then show ?thesis using e False by (simp add: entry_ok_def Let_def)
    next
      case (Inr sc)
      show ?thesis
      proof (cases sc)
        case (States l)
        have sub: "set l \<subseteq> dom (id_of b)"
          using e False Inr States by (simp add: entry_ok_def Let_def)
        then have "map (\<lambda>k'. the (id_of b' k')) l = map (\<lambda>k'. the (id_of b k')) l"
          using map_le_the [OF le] by (intro map_cong) auto
        moreover have "set l \<subseteq> dom (id_of b')" using sub map_le_dom [OF le] by blast
        ultimately show ?thesis
          using e False Inr States by (simp add: entry_ok_def Let_def n)
      next
        case (Pairs l)
        have sub: "fst ` set l \<subseteq> dom (id_of b)"
          using e False Inr Pairs by (simp add: entry_ok_def Let_def)
        then have "map (\<lambda>x. (the (id_of b' (fst x)), snd x)) l
                 = map (\<lambda>x. (the (id_of b (fst x)), snd x)) l"
          using map_le_the [OF le] by (intro map_cong) auto
        moreover have "fst ` set l \<subseteq> dom (id_of b')" using sub map_le_dom [OF le] by blast
        ultimately show ?thesis
          using e False Inr Pairs by (simp add: entry_ok_def Let_def n)
      qed
    qed
  qed
qed

lemma bfs_step_terminal:
  assumes "q b = sp # rest" "id_of b sp = Some i" "tag sp = 4"
  shows "bfs_step b = Inr (b\<lparr>q := rest, kinds := kinds b @ [4],
           succ_states := succ_states b @ [Some []], succ_pairs := succ_pairs b @ [Some []]\<rparr>)"
  using assms by (simp add: bfs_step_def Let_def)

lemma bfs_step_choice:
  assumes "q b = sp # rest" "id_of b sp = Some i" "tag sp = 0"
    "getSuccessors sp = Inr (States l)"
    "discover_list (\<lambda>x. x) (\<lambda>x j. j) l (b\<lparr>q := rest\<rparr>, []) = (b1, ids)"
  shows "bfs_step b = Inr (b1\<lparr>kinds := kinds b1 @ [0],
           succ_states := succ_states b1 @ [Some ids], succ_pairs := succ_pairs b1 @ [None]\<rparr>)"
  using assms by (simp add: bfs_step_def Let_def discover_list_def case_prod_unfold)

lemma bfs_step_chance:
  assumes "q b = sp # rest" "id_of b sp = Some i" "tag sp \<noteq> 0" "tag sp \<noteq> 4"
    "getSuccessors sp = Inr (Pairs l)"
    "discover_list fst (\<lambda>x j. (j, snd x)) l (b\<lparr>q := rest\<rparr>, []) = (b1, pairs)"
  shows "bfs_step b = Inr (b1\<lparr>kinds := kinds b1 @ [tag sp],
           succ_states := succ_states b1 @ [None], succ_pairs := succ_pairs b1 @ [Some pairs]\<rparr>)"
  using assms by (simp add: bfs_step_def Let_def discover_list_def case_prod_unfold)

lemma reach_battle_key: "battle_key k0 \<Longrightarrow> reach succ_keys k0 \<subseteq> {k. battle_key k}"
  by (rule reach_closed) (use getSuccessorsList_battle in auto)

lemma ids_ok_cong:
  "states b' = states b \<Longrightarrow> id_of b' = id_of b \<Longrightarrow> ids_ok b' = ids_ok b"
  by (simp add: ids_ok_def)

lemma bfs_inv_extend:
  assumes inv: "bfs_inv init b" and m: "length (kinds b) < length (states b)"
    and ok: "ids_ok b'" and le: "id_of b \<subseteq>\<^sub>m id_of b'"
    and st: "states b' = states b @ new" and new: "set new \<subseteq> reach succ_keys init"
    and q: "q b' = drop (Suc (length (kinds b))) (states b) @ new"
    and k: "kinds b' = kinds b @ [kd]" and ss: "succ_states b' = succ_states b @ [e1]"
    and sp: "succ_pairs b' = succ_pairs b @ [e2]"
    and e: "entry_ok b' (length (kinds b))"
  shows "bfs_inv init b'"
proof -
  let ?m = "length (kinds b)"
  have i1: "ids_ok b" and i2: "set (states b) \<subseteq> reach succ_keys init"
    and i3: "id_of b init = Some 0"
    and i5: "length (succ_states b) = ?m" and i6: "length (succ_pairs b) = ?m"
    and i8: "\<And>i. i < ?m \<Longrightarrow> entry_ok b i"
    using inv unfolding bfs_inv_def by blast+
  have "id_of b' init = Some 0" using le i3 by (metis domI map_le_def)
  moreover have "q b' = drop (length (kinds b')) (states b')"
    using m by (simp add: q k st)
  moreover have "entry_ok b' i" if "i < length (kinds b')" for i
  proof (cases "i < ?m")
    case True
    show ?thesis
      by (rule entry_ok_mono [OF i8 [OF True] True _ i5 i6 st le k ss sp]) (use True m in simp)
  next
    case False
    then have "i = ?m" using that by (simp add: k)
    then show ?thesis using e by simp
  qed
  ultimately show ?thesis
    unfolding bfs_inv_def using ok i2 new m i5 i6 by (simp add: st k ss sp)
qed

lemma bfs_inv_step:
  assumes inv: "bfs_inv init b" and ne: "q b \<noteq> []" and bk: "battle_key init"
  shows "\<exists>b'. bfs_step b = Inr b' \<and> bfs_inv init b'
            \<and> (\<exists>new. states b' = states b @ new) \<and> id_of b \<subseteq>\<^sub>m id_of b'
            \<and> (\<exists>x. kinds b' = kinds b @ [x]) \<and> (\<exists>x. succ_states b' = succ_states b @ [x])
            \<and> (\<exists>x. succ_pairs b' = succ_pairs b @ [x])"
proof -
  let ?m = "length (kinds b)"
  let ?R = "reach succ_keys init"
  have i1: "ids_ok b" and i2: "set (states b) \<subseteq> ?R"
    and i5: "length (succ_states b) = ?m" and i6: "length (succ_pairs b) = ?m"
    and i7: "q b = drop ?m (states b)"
    using inv unfolding bfs_inv_def by blast+
  have m: "?m < length (states b)" using ne i7 by (cases "?m < length (states b)") auto
  define sp where "sp = states b ! ?m"
  define rest where "rest = drop (Suc ?m) (states b)"
  have q: "q b = sp # rest" unfolding i7 sp_def rest_def using m by (simp add: Cons_nth_drop_Suc)
  have id: "id_of b sp = Some ?m" unfolding sp_def using ids_ok_lookup [OF i1 m] .
  have spR: "sp \<in> ?R" using i2 m unfolding sp_def by (meson nth_mem subsetD)
  then have spk: "battle_key sp" using reach_battle_key [OF bk] by blast
  have succR: "set (succ_keys sp) \<subseteq> ?R" using spR by (auto intro: reach_step)
  let ?b0 = "b\<lparr>q := rest\<rparr>"
  have ok0: "ids_ok ?b0" using i1 by (simp add: ids_ok_def)
  show ?thesis
  proof (cases "tag sp = 4")
    case True
    let ?b' = "b\<lparr>q := rest, kinds := kinds b @ [4],
           succ_states := succ_states b @ [Some []], succ_pairs := succ_pairs b @ [Some []]\<rparr>"
    have step: "bfs_step b = Inr ?b'" by (rule bfs_step_terminal [OF q id True])
    have e: "entry_ok ?b' ?m"
      using True i5 i6 by (simp add: entry_ok_def Let_def sp_def [symmetric] nth_append)
    have "bfs_inv init ?b'"
      by (rule bfs_inv_extend [OF inv m _ _ _ _ _ _ _ _ e, where new = "[]"])
         (use i1 in \<open>simp_all add: ids_ok_def rest_def\<close>)
    then show ?thesis using step by simp
  next
    case False
    from getSuccessors_battle [OF spk False] show ?thesis
    proof (elim disjE exE conjE)
      fix s assume sps: "sp = Propose s"
        and gs: "getSuccessors sp = Inr (States [Resolve s ''Dig'', Resolve s ''Super Potion''])"
      let ?l = "[Resolve s ''Dig'', Resolve s ''Super Potion'']"
      have t0: "tag sp = 0" using sps by simp
      have sk: "succ_keys sp = ?l"
        using gs t0 by (simp add: succ_keys_def getSuccessorsList_def)
      obtain b1 ids where dl: "discover_list (\<lambda>x. x) (\<lambda>x j. j) ?l (?b0, []) = (b1, ids)"
        by (cases "discover_list (\<lambda>x. x) (\<lambda>x j. j) ?l (?b0, [])")
      note p = discover_list_props [OF ok0 dl]
      from p obtain new where new: "states b1 = states b @ new" "q b1 = rest @ new"
        "set new \<subseteq> set ?l"
        by auto
      have f: "kinds b1 = kinds b" "succ_states b1 = succ_states b" "succ_pairs b1 = succ_pairs b"
        "ids_ok b1" "id_of b \<subseteq>\<^sub>m id_of b1" "set ?l \<subseteq> dom (id_of b1)"
        "ids = map (\<lambda>x. the (id_of b1 x)) ?l"
        using p by simp_all
      let ?b' = "b1\<lparr>kinds := kinds b1 @ [0],
           succ_states := succ_states b1 @ [Some ids], succ_pairs := succ_pairs b1 @ [None]\<rparr>"
      have step: "bfs_step b = Inr ?b'" by (rule bfs_step_choice [OF q id t0 gs dl])
      have spm: "states b1 ! ?m = sp" using m by (simp add: new(1) nth_append sp_def)
      have e: "entry_ok ?b' ?m"
        using f(6,7) t0 gs i5 i6 by (simp add: entry_ok_def Let_def spm f(1,2,3) nth_append)
      have "bfs_inv init ?b'"
      proof (rule bfs_inv_extend [OF inv m _ _ _ _ _ _ _ _ e])
        show "ids_ok ?b'" using f(4) by (simp add: ids_ok_def)
        show "id_of b \<subseteq>\<^sub>m id_of ?b'" using f(5) by simp
        show "states ?b' = states b @ new" using new(1) by simp
        show "set new \<subseteq> ?R" using new(3) succR sk by auto
        show "q ?b' = drop (Suc ?m) (states b) @ new" using new(2) by (simp add: rest_def)
        show "kinds ?b' = kinds b @ [0]" by (simp add: f)
        show "succ_states ?b' = succ_states b @ [Some ids]" by (simp add: f)
        show "succ_pairs ?b' = succ_pairs b @ [None]" by (simp add: f)
      qed
      then show ?thesis using step new(1) f by simp
    next
      fix l assume t0: "tag sp \<noteq> 0" and gs: "getSuccessors sp = Inr (Pairs l)"
      have sk: "succ_keys sp = map fst l"
        using gs False by (simp add: succ_keys_def getSuccessorsList_def)
      obtain b1 pairs where dl: "discover_list fst (\<lambda>x j. (j, snd x)) l (?b0, []) = (b1, pairs)"
        by (cases "discover_list fst (\<lambda>x j. (j, snd x)) l (?b0, [])")
      note p = discover_list_props [OF ok0 dl]
      from p obtain new where new: "states b1 = states b @ new" "q b1 = rest @ new"
        "set new \<subseteq> fst ` set l"
        by auto
      have f: "kinds b1 = kinds b" "succ_states b1 = succ_states b" "succ_pairs b1 = succ_pairs b"
        "ids_ok b1" "id_of b \<subseteq>\<^sub>m id_of b1" "fst ` set l \<subseteq> dom (id_of b1)"
        "pairs = map (\<lambda>x. (the (id_of b1 (fst x)), snd x)) l"
        using p by simp_all
      let ?b' = "b1\<lparr>kinds := kinds b1 @ [tag sp],
           succ_states := succ_states b1 @ [None], succ_pairs := succ_pairs b1 @ [Some pairs]\<rparr>"
      have step: "bfs_step b = Inr ?b'" by (rule bfs_step_chance [OF q id t0 False gs dl])
      have spm: "states b1 ! ?m = sp" using m by (simp add: new(1) nth_append sp_def)
      have e: "entry_ok ?b' ?m"
        using f(6,7) t0 False gs i5 i6 by (simp add: entry_ok_def Let_def spm f(1,2,3) nth_append)
      have "bfs_inv init ?b'"
      proof (rule bfs_inv_extend [OF inv m _ _ _ _ _ _ _ _ e])
        show "ids_ok ?b'" using f(4) by (simp add: ids_ok_def)
        show "id_of b \<subseteq>\<^sub>m id_of ?b'" using f(5) by simp
        show "states ?b' = states b @ new" using new(1) by simp
        show "set new \<subseteq> ?R" using new(3) succR sk by auto
        show "q ?b' = drop (Suc ?m) (states b) @ new" using new(2) by (simp add: rest_def)
        show "kinds ?b' = kinds b @ [tag sp]" by (simp add: f)
        show "succ_states ?b' = succ_states b @ [None]" by (simp add: f)
        show "succ_pairs ?b' = succ_pairs b @ [Some pairs]" by (simp add: f)
      qed
      then show ?thesis using step new(1) f by simp
    qed
  qed
qed

lemma bfs_inv_start: "bfs_inv init (bfs_start init)"
  by (auto simp: bfs_inv_def bfs_start_def ids_ok_def reach_refl)

lemma entry_ok_succ_keys:
  assumes "entry_ok b i"
  shows "set (succ_keys (states b ! i)) \<subseteq> dom (id_of b)"
proof (cases "tag (states b ! i) = 4")
  case True
  then show ?thesis by (simp add: succ_keys_def getSuccessorsList_def)
next
  case False
  show ?thesis
  proof (cases "getSuccessors (states b ! i)")
    case (Inl e)
    then show ?thesis using assms False by (simp add: entry_ok_def Let_def)
  next
    case (Inr sc)
    then show ?thesis
      using assms False
      by (cases sc) (auto simp: entry_ok_def Let_def succ_keys_def getSuccessorsList_def)
  qed
qed

lemma bfs_inv_final:
  assumes inv: "bfs_inv init b" and e: "q b = []"
  shows "length (kinds b) = length (states b) \<and> set (states b) = reach succ_keys init"
proof -
  have i1: "ids_ok b" and i2: "set (states b) \<subseteq> reach succ_keys init"
    and i3: "id_of b init = Some 0" and i4: "length (kinds b) \<le> length (states b)"
    and i7: "q b = drop (length (kinds b)) (states b)"
    and i8: "\<And>i. i < length (kinds b) \<Longrightarrow> entry_ok b i"
    using inv unfolding bfs_inv_def by blast+
  have len: "length (kinds b) = length (states b)" using e i7 i4 by simp
  have dom: "dom (id_of b) = set (states b)" by (rule ids_ok_dom [OF i1])
  have "init \<in> set (states b)" using i3 dom by blast
  moreover have "w \<in> set (states b)" if v: "v \<in> set (states b)" and w: "w \<in> set (succ_keys v)" for v w
  proof -
    obtain i where i: "i < length (states b)" "states b ! i = v"
      using v by (auto simp: in_set_conv_nth)
    then have "entry_ok b i" using i8 len by simp
    from entry_ok_succ_keys [OF this] w i(2) dom show ?thesis by auto
  qed
  ultimately have "reach succ_keys init \<subseteq> set (states b)" by (rule reach_closed)
  with i2 len show ?thesis by blast
qed

lemma build_graph_battle:
  assumes bk: "battle_key init"
  shows "\<exists>g. build_graph init = Some (Inr g) \<and> bfs_inv init g \<and> q g = []"
proof -
  let ?R = "reach succ_keys init"
  have fin: "finite ?R"
    using reach_battle_key [OF bk] finite_battle_keys by (rule finite_subset)
  let ?rel = "measure (\<lambda>b. card ?R - length (kinds b))"
  have step: "\<exists>b'. bfs_step b = Inr b' \<and> bfs_inv init b' \<and> (b', b) \<in> ?rel"
    if inv: "bfs_inv init b" and ne: "q b \<noteq> []" for b
  proof -
    obtain b' where b': "bfs_step b = Inr b'" "bfs_inv init b'" "\<exists>x. kinds b' = kinds b @ [x]"
      using bfs_inv_step [OF inv ne bk] by blast
    have "distinct (states b)" "set (states b) \<subseteq> ?R" "q b = drop (length (kinds b)) (states b)"
      using inv unfolding bfs_inv_def ids_ok_def by blast+
    then have "length (states b) \<le> card ?R" "length (kinds b) < length (states b)"
      using fin ne by (auto simp: distinct_card [symmetric] intro: card_mono)
    then have "(b', b) \<in> ?rel" using b'(3) by auto
    with b' show ?thesis by blast
  qed
  have "\<exists>g. whileE (\<lambda>b. q b \<noteq> []) bfs_step (bfs_start init) = Some (Inr g)
            \<and> bfs_inv init g \<and> \<not> q g \<noteq> []"
    by (rule whileE_terminates [where R = ?rel, OF bfs_inv_start step]) simp_all
  then show ?thesis by (simp add: build_graph_def bfs_start_def)
qed

subsection \<open>The arrays of \<open>mdp_opt3.py\<close> and the dictionaries of \<open>mdp_opt2.py\<close>\<close>

lemma abs_at:
  assumes "ids_ok g" "i < length (states g)"
  shows "dmin (abs_state g s) (states g ! i) = dmin_arr s ! i"
    "dmax (abs_state g s) (states g ! i) = dmax_arr s ! i"
    "states g ! i \<in> frozen (abs_state g s) \<longleftrightarrow> frozen_a s ! i"
  using ids_ok_lookup [OF assms] by (simp_all add: abs_state_def look_def)

lemma abs_at_key:
  assumes "id_of g k = Some i"
  shows "dmin (abs_state g s) k = dmin_arr s ! i" "dmax (abs_state g s) k = dmax_arr s ! i"
  using assms by (simp_all add: abs_state_def look_def)

lemma look_update:
  assumes ok: "ids_ok g" and i: "i < length (states g)" and len: "length xs = length (states g)"
  shows "look g d (xs[i := v]) = (look g d xs)(states g ! i := v)"
proof
  fix k
  show "look g d (xs[i := v]) k = ((look g d xs)(states g ! i := v)) k"
  proof (cases "id_of g k")
    case None
    then have "k \<noteq> states g ! i" using ids_ok_lookup [OF ok i] by auto
    then show ?thesis using None by (simp add: look_def)
  next
    case (Some j)
    show ?thesis
    proof (cases "j = i")
      case True
      then have "k = states g ! i" using ids_ok_bound [OF ok Some] by simp
      then show ?thesis using Some True i len by (simp add: look_def)
    next
      case False
      then have "k \<noteq> states g ! i" using ids_ok_lookup [OF ok i] Some by auto
      then show ?thesis using Some False by (simp add: look_def)
    qed
  qed
qed

lemma Collect_upd_True: "Collect (f(k := True)) = insert k (Collect f)"
  by auto

lemma abs_set_bounds:
  assumes ok: "ids_ok g" and i: "i < length (states g)" and wf: "wf3 g s"
  shows "set_bounds s i lo hi = Inr (s\<lparr>dmin_arr := (dmin_arr s)[i := lo], dmax_arr := (dmax_arr s)[i := hi]\<rparr>)"
    and "abs_state g (s\<lparr>dmin_arr := (dmin_arr s)[i := lo], dmax_arr := (dmax_arr s)[i := hi]\<rparr>)
         = set_bounds2 (abs_state g s) (states g ! i) lo hi"
    and "wf3 g (s\<lparr>dmin_arr := (dmin_arr s)[i := lo], dmax_arr := (dmax_arr s)[i := hi]\<rparr>)"
proof -
  have len: "length (dmin_arr s) = length (states g)" "length (dmax_arr s) = length (states g)"
    using wf by (simp_all add: wf3_def)
  show "set_bounds s i lo hi = Inr (s\<lparr>dmin_arr := (dmin_arr s)[i := lo], dmax_arr := (dmax_arr s)[i := hi]\<rparr>)"
    using i len by (simp add: set_bounds_def arr_set_def)
  show "abs_state g (s\<lparr>dmin_arr := (dmin_arr s)[i := lo], dmax_arr := (dmax_arr s)[i := hi]\<rparr>)
         = set_bounds2 (abs_state g s) (states g ! i) lo hi"
    by (simp add: abs_state_def set_bounds2_def look_update [OF ok i] len)
  show "wf3 g (s\<lparr>dmin_arr := (dmin_arr s)[i := lo], dmax_arr := (dmax_arr s)[i := hi]\<rparr>)"
    using wf by (simp add: wf3_def)
qed

lemma abs_freeze:
  assumes ok: "ids_ok g" and i: "i < length (states g)" and wf: "wf3 g s"
  shows "\<exists>s'. freeze3 s i = Inr s' \<and> wf3 g s'
           \<and> abs_state g s' = freeze2 (abs_state g s) (states g ! i)"
proof -
  have len: "length (dmin_arr s) = length (states g)" "length (dmax_arr s) = length (states g)"
    "length (frozen_a s) = length (states g)"
    using wf by (simp_all add: wf3_def)
  let ?lo = "dmin_arr s ! i" and ?hi = "dmax_arr s ! i"
  show ?thesis
  proof (cases "?lo \<ge> ?hi")
    case False
    then show ?thesis
      using i len wf by (simp add: freeze3_def arr_get_def freeze2_def abs_at [OF ok i])
  next
    case True
    let ?mid = "(1 / 2) * (?lo + ?hi)"
    let ?s1 = "s\<lparr>dmin_arr := (dmin_arr s)[i := ?mid], dmax_arr := (dmax_arr s)[i := ?mid]\<rparr>"
    let ?s2 = "?s1\<lparr>frozen_a := (frozen_a s)[i := True]\<rparr>"
    note sb = abs_set_bounds [OF ok i wf, of ?mid ?mid]
    have step: "freeze3 s i = Inr ?s2"
      using True i len sb(1) by (simp add: freeze3_def arr_get_def arr_set_def Let_def)
    have wf2: "wf3 g ?s2" using sb(3) i by (auto simp: wf3_def nth_list_update)
    have "abs_state g ?s2 = (abs_state g ?s1)\<lparr>frozen := insert (states g ! i) (frozen (abs_state g ?s1))\<rparr>"
      by (simp add: abs_state_def look_update [OF ok i len(3)] Collect_upd_True)
    also have "\<dots> = freeze2 (abs_state g s) (states g ! i)"
      using True unfolding sb(2)
      by (simp add: freeze2_def Let_def abs_at [OF ok i] set_bounds2_def)
    finally show ?thesis using step wf2 by blast
  qed
qed

lemma id_lookup:
  assumes ok: "ids_ok g" and wf: "wf3 g s" and k: "k \<in> dom (id_of g)"
  shows "arr_get (dmin_arr s) (the (id_of g k)) = Inr (dmin (abs_state g s) k)"
    and "arr_get (dmax_arr s) (the (id_of g k)) = Inr (dmax (abs_state g s) k)"
proof -
  obtain j where j: "id_of g k = Some j" using k by blast
  have "j < length (states g)" using ids_ok_bound [OF ok j] by simp
  then have "j < length (dmin_arr s)" "j < length (dmax_arr s)" using wf by (simp_all add: wf3_def)
  then show "arr_get (dmin_arr s) (the (id_of g k)) = Inr (dmin (abs_state g s) k)"
    and "arr_get (dmax_arr s) (the (id_of g k)) = Inr (dmax (abs_state g s) k)"
    using j by (simp_all add: arr_get_def abs_at_key [OF j])
qed

lemma choice_fold_sim:
  assumes ok: "ids_ok g" and wf: "wf3 g s"
  shows "set l \<subseteq> dom (id_of g) \<Longrightarrow>
    foldE (\<lambda>j (best_min, best_max).
             bindE (arr_get (dmin_arr s) j) (\<lambda>vmin.
             bindE (arr_get (dmax_arr s) j) (\<lambda>vmax.
             Inr (raise_best vmin best_min, raise_best vmax best_max))))
          (map (\<lambda>k'. the (id_of g k')) l) acc
    = Inr (fold (\<lambda>sp2 (best_min, best_max).
             (raise_best (dmin (abs_state g s) sp2) best_min,
              raise_best (dmax (abs_state g s) sp2) best_max)) l acc)"
proof (induction l arbitrary: acc)
  case Nil
  show ?case by simp
next
  case (Cons k l)
  have k: "k \<in> dom (id_of g)" and l: "set l \<subseteq> dom (id_of g)" using Cons.prems by simp_all
  show ?case
    by (cases acc) (simp add: id_lookup [OF ok wf k] Cons.IH [OF l])
qed

lemma chance_fold_sim:
  assumes ok: "ids_ok g" and wf: "wf3 g s"
  shows "fst ` set l \<subseteq> dom (id_of g) \<Longrightarrow>
    foldE (\<lambda>(j, p) (smin, smax).
             bindE (arr_get (dmin_arr s) j) (\<lambda>vmin.
             bindE (arr_get (dmax_arr s) j) (\<lambda>vmax.
             Inr (smin + vmin * p, smax + vmax * p))))
          (map (\<lambda>x. (the (id_of g (fst x)), snd x)) l) acc
    = Inr (fold (\<lambda>(sp2, p) (smin, smax).
             (smin + dmin (abs_state g s) sp2 * p, smax + dmax (abs_state g s) sp2 * p)) l acc)"
proof (induction l arbitrary: acc)
  case Nil
  show ?case by simp
next
  case (Cons x l)
  have k: "fst x \<in> dom (id_of g)" and l: "fst ` set l \<subseteq> dom (id_of g)" using Cons.prems by simp_all
  show ?case
    by (cases acc; cases x) (use k in \<open>simp add: id_lookup [OF ok wf] Cons.IH [OF l]\<close>)
qed

text \<open>
  One execution of the loop body of \<open>mdp_opt3.py\<close> at the id of a key does to the
  arrays what the loop body of \<open>mdp_opt2.py\<close> does to the dictionaries at that key.
\<close>

lemma update_sim:
  assumes ok: "ids_ok g" and lens: "length (kinds g) = length (states g)"
    "length (succ_states g) = length (states g)" "length (succ_pairs g) = length (states g)"
    and ent: "entry_ok g i" and wf: "wf3 g s" and i: "i < length (states g)"
  shows "map_sum id (abs_state g) (update3 g s i) = update2 (abs_state g s) (states g ! i)
       \<and> (\<forall>s'. update3 g s i = Inr s' \<longrightarrow> wf3 g s')"
proof -
  let ?k = "states g ! i"
  let ?a = "abs_state g s"
  have len: "length (dmin_arr s) = length (states g)" "length (dmax_arr s) = length (states g)"
    "length (frozen_a s) = length (states g)"
    and tm4: "tag ?k = 4 \<Longrightarrow> frozen_a s ! i"
    using wf i by (simp_all add: wf3_def)
  have kind: "kinds g ! i = tag ?k" using ent by (simp add: entry_ok_def Let_def)
  show ?thesis
  proof (cases "frozen_a s ! i")
    case True
    then have "?k \<in> frozen ?a" by (simp add: abs_at [OF ok i])
    then show ?thesis using True i len wf by (simp add: update3_def arr_get_def)
  next
    case False
    then have nf: "?k \<notin> frozen ?a" by (simp add: abs_at [OF ok i])
    have t4: "tag ?k \<noteq> 4" using tm4 False by blast
    obtain sc where sc: "getSuccessors ?k = Inr sc"
      using ent t4 by (auto simp: entry_ok_def Let_def split: sum.splits)
    have head: "update3 g s i =
       bindE (if tag ?k = 0 then
                bindE (arr_get (succ_states g) i) (\<lambda>js.
                case js of None \<Rightarrow> Inl TypeError | Some js \<Rightarrow>
                bindE (foldE (\<lambda>j (best_min, best_max).
                         bindE (arr_get (dmin_arr s) j) (\<lambda>vmin.
                         bindE (arr_get (dmax_arr s) j) (\<lambda>vmax.
                         Inr (raise_best vmin best_min, raise_best vmax best_max))))
                       js (None, None)) (\<lambda>(best_min, best_max).
                bindE (store_best best_min) (\<lambda>lo.
                bindE (store_best best_max) (\<lambda>hi.
                set_bounds s i lo hi))))
              else if tag ?k = 1 \<or> tag ?k = 2 then
                bindE (arr_get (succ_pairs g) i) (\<lambda>ps.
                case ps of None \<Rightarrow> Inl TypeError | Some ps \<Rightarrow>
                bindE (foldE (\<lambda>(j, p) (smin, smax).
                         bindE (arr_get (dmin_arr s) j) (\<lambda>vmin.
                         bindE (arr_get (dmax_arr s) j) (\<lambda>vmax.
                         Inr (smin + vmin * p, smax + vmax * p))))
                       ps (0, 0)) (\<lambda>(smin, smax).
                set_bounds s i smin smax))
              else Inr s)
         (\<lambda>s. freeze3 s i)"
      using False i len lens kind by (simp add: update3_def arr_get_def)
    have fin: "map_sum id (abs_state g) (freeze3 s1 i) = Inr (freeze2 (abs_state g s1) ?k)
        \<and> (\<forall>s'. freeze3 s1 i = Inr s' \<longrightarrow> wf3 g s')" if "wf3 g s1" for s1
      using abs_freeze [OF ok i that] by auto
    show ?thesis
    proof (cases sc)
      case (States l)
      have e: "tag ?k = 0" "set l \<subseteq> dom (id_of g)"
        "succ_states g ! i = Some (map (\<lambda>k'. the (id_of g k')) l)"
        using ent t4 sc States by (simp_all add: entry_ok_def Let_def)
      note u2 = update2_choice [OF nf e(1) sc [unfolded States]]
      obtain bm bM where cb: "choice_bounds ?a l = (bm, bM)" by (cases "choice_bounds ?a l")
      have fold3: "foldE (\<lambda>j (best_min, best_max).
                         bindE (arr_get (dmin_arr s) j) (\<lambda>vmin.
                         bindE (arr_get (dmax_arr s) j) (\<lambda>vmax.
                         Inr (raise_best vmin best_min, raise_best vmax best_max))))
                       (map (\<lambda>k'. the (id_of g k')) l) (None, None) = Inr (bm, bM)"
        using choice_fold_sim [OF ok wf e(2), of "(None, None)"] cb
        by (simp add: choice_bounds_def)
      have u3: "update3 g s i =
          bindE (bindE (store_best bm) (\<lambda>lo. bindE (store_best bM) (\<lambda>hi. set_bounds s i lo hi)))
            (\<lambda>s. freeze3 s i)"
        unfolding head using e(1,3) i lens fold3 by (simp add: arr_get_def)
      show ?thesis
      proof (cases "\<exists>lo hi. bm = Some lo \<and> bM = Some hi")
        case True
        then obtain lo hi where b: "bm = Some lo" "bM = Some hi" by blast
        note sb = abs_set_bounds [OF ok i wf, where lo = lo and hi = hi]
        show ?thesis
          unfolding u3 u2 cb b using fin [OF sb(3)] sb(1,2)
          by (simp add: store_best_def)
      next
        case False
        then show ?thesis
          unfolding u3 u2 cb by (cases bm; cases bM) (simp_all add: store_best_def)
      qed
    next
      case (Pairs l)
      have e: "tag ?k \<noteq> 0" "fst ` set l \<subseteq> dom (id_of g)"
        "succ_pairs g ! i = Some (map (\<lambda>x. (the (id_of g (fst x)), snd x)) l)"
        using ent t4 sc Pairs by (simp_all add: entry_ok_def Let_def)
      have t12: "tag ?k = 1 \<or> tag ?k = 2"
        using e(1) t4 by (cases ?k) simp_all
      note u2 = update2_chance [OF nf e(1) sc [unfolded Pairs]]
      obtain lo hi where cb: "chance_bounds ?a l = (lo, hi)" by (cases "chance_bounds ?a l")
      have fold3: "foldE (\<lambda>(j, p) (smin, smax).
                         bindE (arr_get (dmin_arr s) j) (\<lambda>vmin.
                         bindE (arr_get (dmax_arr s) j) (\<lambda>vmax.
                         Inr (smin + vmin * p, smax + vmax * p))))
                       (map (\<lambda>x. (the (id_of g (fst x)), snd x)) l) (0, 0) = Inr (lo, hi)"
        using chance_fold_sim [OF ok wf e(2), of "(0, 0)"] cb
        by (simp add: chance_bounds_def)
      have u3: "update3 g s i = bindE (set_bounds s i lo hi) (\<lambda>s. freeze3 s i)"
        unfolding head using e(1,3) t12 i lens fold3 by (simp add: arr_get_def)
      note sb = abs_set_bounds [OF ok i wf, where lo = lo and hi = hi]
      show ?thesis
        unfolding u3 u2 cb using fin [OF sb(3)] sb(1,2) by simp
    qed
  qed
qed

lemma sweep_sim:
  assumes ok: "ids_ok g" and lens: "length (kinds g) = length (states g)"
    "length (succ_states g) = length (states g)" "length (succ_pairs g) = length (states g)"
    and ent: "\<forall>i<length (states g). entry_ok g i"
  shows "set ks \<subseteq> set (states g) \<Longrightarrow> wf3 g s \<Longrightarrow>
       map_sum id (abs_state g) (sweep3 g (map (\<lambda>k. the (id_of g k)) ks) s)
         = sweep2 ks (abs_state g s)
       \<and> (\<forall>s'. sweep3 g (map (\<lambda>k. the (id_of g k)) ks) s = Inr s' \<longrightarrow> wf3 g s')"
proof (induction ks arbitrary: s)
  case Nil
  then show ?case by (simp add: sweep3_def sweep2_def)
next
  case (Cons k ks)
  have "k \<in> set (states g)" and sub: "set ks \<subseteq> set (states g)" using Cons.prems(1) by simp_all
  then obtain i where i: "i < length (states g)" "states g ! i = k"
    by (auto simp: in_set_conv_nth)
  have id: "id_of g k = Some i" using ids_ok_lookup [OF ok i(1)] i(2) by simp
  have e: "entry_ok g i" using ent i(1) by simp
  note u = update_sim [OF ok lens e Cons.prems(2) i(1), unfolded i(2)]
  show ?case
  proof (cases "update3 g s i")
    case (Inl err)
    then have "update2 (abs_state g s) k = Inl err" using u by simp
    then show ?thesis using Inl id by (simp add: sweep3_def sweep2_def)
  next
    case (Inr s1)
    then have u2: "update2 (abs_state g s) k = Inr (abs_state g s1)" and wf1: "wf3 g s1"
      using u by simp_all
    show ?thesis
      using Cons.IH [OF sub wf1] Inr u2 id by (simp add: sweep3_def sweep2_def)
  qed
qed

lemma mapE_dict_at:
  "set ks \<subseteq> dom m \<Longrightarrow> mapE (dict_at m) ks = Inr (map (\<lambda>k. the (m k)) ks)"
  by (induction ks) (auto simp: dict_at_def)

lemma seed_loss:
  assumes ok: "ids_ok g" and len: "length (dmax_arr s) = length (states g)"
    "length (frozen_a s) = length (states g)"
  shows "\<exists>s'. seed g loss True s = Inr s' \<and> dmin_arr s' = dmin_arr s
      \<and> length (dmax_arr s') = length (states g) \<and> length (frozen_a s') = length (states g)
      \<and> abs_state g s' = (abs_state g s)\<lparr>dmax := (dmax (abs_state g s))(loss := 0),
                                          frozen := insert loss (frozen (abs_state g s))\<rparr>"
proof (cases "id_of g loss")
  case None
  have "dmax (abs_state g s) loss = 0" "loss \<in> frozen (abs_state g s)"
    using None by (simp_all add: abs_state_def look_def Battle_init_def)
  then have "(abs_state g s)\<lparr>dmax := (dmax (abs_state g s))(loss := 0),
        frozen := insert loss (frozen (abs_state g s))\<rparr> = abs_state g s"
    by (simp add: insert_absorb fun_upd_idem)
  then show ?thesis using None len by (simp add: seed_def)
next
  case (Some i)
  note b = ids_ok_bound [OF ok Some]
  have i: "i < length (states g)" and k: "states g ! i = loss" using b by simp_all
  have "seed g loss True s = Inr (s\<lparr>dmax_arr := (dmax_arr s)[i := 0], frozen_a := (frozen_a s)[i := True]\<rparr>)"
    using Some i len by (simp add: seed_def arr_set_def)
  moreover have "abs_state g (s\<lparr>dmax_arr := (dmax_arr s)[i := 0], frozen_a := (frozen_a s)[i := True]\<rparr>)
      = (abs_state g s)\<lparr>dmax := (dmax (abs_state g s))(loss := 0),
                                          frozen := insert loss (frozen (abs_state g s))\<rparr>"
    by (simp add: abs_state_def look_update [OF ok i] len Collect_upd_True k)
  ultimately show ?thesis using len by simp
qed

lemma seed_win:
  assumes ok: "ids_ok g" and len: "length (dmin_arr s) = length (states g)"
    "length (frozen_a s) = length (states g)"
  shows "\<exists>s'. seed g win False s = Inr s' \<and> dmax_arr s' = dmax_arr s
      \<and> length (dmin_arr s') = length (states g) \<and> length (frozen_a s') = length (states g)
      \<and> abs_state g s' = (abs_state g s)\<lparr>dmin := (dmin (abs_state g s))(win := 1),
                                          frozen := insert win (frozen (abs_state g s))\<rparr>"
proof (cases "id_of g win")
  case None
  have "dmin (abs_state g s) win = 1" "win \<in> frozen (abs_state g s)"
    using None by (simp_all add: abs_state_def look_def Battle_init_def)
  then have "(abs_state g s)\<lparr>dmin := (dmin (abs_state g s))(win := 1),
        frozen := insert win (frozen (abs_state g s))\<rparr> = abs_state g s"
    by (simp add: insert_absorb fun_upd_idem)
  then show ?thesis using None len by (simp add: seed_def)
next
  case (Some i)
  note b = ids_ok_bound [OF ok Some]
  have i: "i < length (states g)" and k: "states g ! i = win" using b by simp_all
  have "seed g win False s = Inr (s\<lparr>dmin_arr := (dmin_arr s)[i := 1], frozen_a := (frozen_a s)[i := True]\<rparr>)"
    using Some i len by (simp add: seed_def arr_set_def)
  moreover have "abs_state g (s\<lparr>dmin_arr := (dmin_arr s)[i := 1], frozen_a := (frozen_a s)[i := True]\<rparr>)
      = (abs_state g s)\<lparr>dmin := (dmin (abs_state g s))(win := 1),
                                          frozen := insert win (frozen (abs_state g s))\<rparr>"
    by (simp add: abs_state_def look_update [OF ok i] len Collect_upd_True k)
  ultimately show ?thesis using len by simp
qed

lemma abs_fresh:
  assumes ok: "ids_ok g"
  shows "abs_state g \<lparr>dmin_arr = replicate (length (states g)) 0,
                      dmax_arr = replicate (length (states g)) 1,
                      frozen_a = replicate (length (states g)) False\<rparr>
         = \<lparr>dmin = (\<lambda>k. if k = win \<and> id_of g k = None then 1 else 0),
            dmax = (\<lambda>k. if k = loss \<and> id_of g k = None then 0 else 1),
            frozen = {k. (k = win \<or> k = loss) \<and> id_of g k = None}\<rparr>"
proof -
  have lk: "look g d (replicate (length (states g)) v) = (\<lambda>k. if id_of g k = None then d k else v)"
    for d :: "statep \<Rightarrow> 'a" and v
    using ids_ok_bound [OF ok] by (auto simp: look_def fun_eq_iff split: option.splits)
  show ?thesis
    by (auto simp: abs_state_def lk Battle_init_def fun_eq_iff win_def loss_def)
qed

text \<open>
  The arrays \<open>evaluate\<close> of \<open>mdp_opt3.py\<close> starts its loop with stand for the
  dictionaries of a new \<open>Battle\<close>.
\<close>

lemma seeded:
  assumes ok: "ids_ok g"
  shows "\<exists>s1 s2. seed g loss True \<lparr>dmin_arr = replicate (length (states g)) 0,
                      dmax_arr = replicate (length (states g)) 1,
                      frozen_a = replicate (length (states g)) False\<rparr> = Inr s1
      \<and> seed g win False s1 = Inr s2 \<and> wf3 g s2 \<and> abs_state g s2 = Battle_init"
proof -
  let ?n = "length (states g)"
  let ?s0 = "\<lparr>dmin_arr = replicate ?n 0, dmax_arr = replicate ?n 1, frozen_a = replicate ?n False\<rparr>"
  obtain s1 where s1: "seed g loss True ?s0 = Inr s1" "dmin_arr s1 = dmin_arr ?s0"
    "length (dmax_arr s1) = ?n" "length (frozen_a s1) = ?n"
    "abs_state g s1 = (abs_state g ?s0)\<lparr>dmax := (dmax (abs_state g ?s0))(loss := 0),
                                          frozen := insert loss (frozen (abs_state g ?s0))\<rparr>"
    using seed_loss [OF ok, of ?s0] by auto
  have l1: "length (dmin_arr s1) = ?n" using s1(2) by simp
  obtain s2 where s2: "seed g win False s1 = Inr s2" "dmax_arr s2 = dmax_arr s1"
    "length (dmin_arr s2) = ?n" "length (frozen_a s2) = ?n"
    "abs_state g s2 = (abs_state g s1)\<lparr>dmin := (dmin (abs_state g s1))(win := 1),
                                          frozen := insert win (frozen (abs_state g s1))\<rparr>"
    using seed_win [OF ok l1 s1(4)] by auto
  have a: "abs_state g s2 = Battle_init"
    unfolding s2(5) s1(5) abs_fresh [OF ok]
    by (auto simp: Battle_init_def fun_eq_iff)
  have "frozen_a s2 ! i" if i: "i < ?n" and t: "tag (states g ! i) = 4" for i
  proof -
    have "states g ! i \<in> frozen Battle_init"
      using t by (cases "states g ! i") (auto simp: Battle_init_def win_def loss_def)
    then show ?thesis using abs_at(3) [OF ok i, of s2] a by simp
  qed
  then have "wf3 g s2" using s2(2,3,4) s1(3) by (simp add: wf3_def)
  with s1(1) s2(1) a show ?thesis by blast
qed

text \<open>
  The two \<open>while\<close> loops run in lock step: related states before a sweep are related
  after it, and the two loop tests agree on related states.
\<close>

lemma loops_agree:
  assumes ok: "ids_ok g" and lens: "length (kinds g) = length (states g)"
    "length (succ_states g) = length (states g)" "length (succ_pairs g) = length (states g)"
    and ent: "\<forall>i<length (states g). entry_ok g i"
    and sub: "set ks \<subseteq> set (states g)" and wf: "wf3 g s"
    and init: "id_of g k0 = Some i0"
  shows "map_option (map_sum id (abs_state g))
           (whileE (\<lambda>s. dmax_arr s ! i0 - dmin_arr s ! i0 > tol)
              (sweep3 g (map (\<lambda>k. the (id_of g k)) ks)) s)
       = whileE (\<lambda>s. dmax s k0 - dmin s k0 > tol) (sweep2 ks) (abs_state g s)"
proof -
  let ?f = "map_sum id (abs_state g) :: error + astate \<Rightarrow> error + vstate"
  let ?P = "\<lambda>r :: error + astate. case r of Inl e \<Rightarrow> True | Inr s \<Rightarrow> wf3 g s"
  let ?ids = "map (\<lambda>k. the (id_of g k)) ks"
  have "map_option ?f (while_option (\<lambda>r. case r of Inl e \<Rightarrow> False
                | Inr s \<Rightarrow> dmax_arr s ! i0 - dmin_arr s ! i0 > tol)
            (\<lambda>r. bindE r (sweep3 g ?ids)) (Inr s))
      = while_option (\<lambda>r. case r of Inl e \<Rightarrow> False | Inr s \<Rightarrow> dmax s k0 - dmin s k0 > tol)
            (\<lambda>r. bindE r (sweep2 ks)) (?f (Inr s))"
  proof (rule while_option_commute_invariant [where P = ?P])
    fix r :: "error + astate"
    assume "?P r"
    then show "?P (bindE r (sweep3 g ?ids))"
      using sweep_sim [OF ok lens ent sub]
      by (cases r; cases "sweep3 g ?ids (projr r)") auto
  next
    fix r :: "error + astate"
    assume "?P r"
    show "(case r of Inl e \<Rightarrow> False | Inr s \<Rightarrow> dmax_arr s ! i0 - dmin_arr s ! i0 > tol)
        = (case ?f r of Inl e \<Rightarrow> False | Inr s \<Rightarrow> dmax s k0 - dmin s k0 > tol)"
      by (cases r) (simp_all add: abs_at_key [OF init])
  next
    fix r :: "error + astate"
    assume "?P r"
    then show "?f (bindE r (sweep3 g ?ids)) = bindE (?f r) (sweep2 ks)"
      using sweep_sim [OF ok lens ent sub] by (cases r) auto
  next
    show "?P (Inr s)" using wf by simp
  qed
  then show ?thesis by (simp add: whileE_def)
qed

lemma evaluate_agree: "evaluate3 tolerance = evaluate2 tolerance"
proof -
  obtain g where g: "build_graph initial_statep = Some (Inr g)" "bfs_inv initial_statep g" "q g = []"
    using build_graph_battle [OF battle_key_initial] by blast
  have ok: "ids_ok g" and id0: "id_of g initial_statep = Some 0"
    and l2: "length (succ_states g) = length (kinds g)"
    and l3: "length (succ_pairs g) = length (kinds g)"
    and ent0: "\<forall>i<length (kinds g). entry_ok g i"
    using g(2) unfolding bfs_inv_def by blast+
  have l1: "length (kinds g) = length (states g)"
    and r: "set (states g) = reach succ_keys initial_statep"
    using bfs_inv_final [OF g(2,3)] by simp_all
  note lens = l1 l2 [unfolded l1] l3 [unfolded l1]
  have ent: "\<forall>i<length (states g). entry_ok g i" using ent0 l1 by simp
  obtain stateps where t: "topoSort [initial_statep] getSuccessorsList = Some (Inr stateps)"
    and ts: "set stateps = reach succ_keys initial_statep"
    using topoSort_battle by blast
  have sub: "set stateps \<subseteq> set (states g)" using ts r by simp
  have dm: "set stateps \<subseteq> dom (id_of g)" using sub ids_ok_dom [OF ok] by simp
  let ?n = "length (states g)"
  obtain s1 s2 where s: "seed g loss True \<lparr>dmin_arr = replicate ?n 0,
        dmax_arr = replicate ?n 1, frozen_a = replicate ?n False\<rparr> = Inr s1"
      "seed g win False s1 = Inr s2" "wf3 g s2" "abs_state g s2 = Battle_init"
    using seeded [OF ok] by blast
  have n0: "0 < ?n" using ids_ok_bound [OF ok id0] by simp
  have idx: "bindE (arr_get (dmax_arr s2) 0) (\<lambda>_. arr_get (dmin_arr s2) 0) = Inr (dmin_arr s2 ! 0)"
    using s(3) n0 by (simp add: wf3_def arr_get_def)
  let ?ids = "map (\<lambda>k. the (id_of g k)) stateps"
  let ?w3 = "whileE (\<lambda>s. dmax_arr s ! 0 - dmin_arr s ! 0 > tolerance) (sweep3 g ?ids) s2"
  let ?w2 = "whileE (\<lambda>s. dmax s initial_statep - dmin s initial_statep > tolerance)
               (sweep2 stateps) Battle_init"
  have e3: "evaluate3 tolerance
      = bindR ?w3 (\<lambda>s. Some (Inr ((1 / 2) * (dmax_arr s ! 0 + dmin_arr s ! 0))))"
    by (simp add: evaluate3_def g(1) bindR_def Let_def liftE_def s(1,2) dict_at_def id0 t
        mapE_dict_at [OF dm] idx)
  have e2: "evaluate2 tolerance
      = bindR ?w2 (\<lambda>s. Some (Inr ((dmax s initial_statep + dmin s initial_statep) / 2)))"
    by (simp add: evaluate2_def t bindR_def)
  have w: "map_option (map_sum id (abs_state g)) ?w3 = ?w2"
    using loops_agree [OF ok lens ent sub s(3) id0] by (simp add: s(4))
  show ?thesis
  proof (cases ?w3)
    case None
    then have "?w2 = None" using w by simp
    then show ?thesis unfolding e3 e2 using None by (simp add: bindR_def)
  next
    case (Some r)
    then have w2: "?w2 = Some (map_sum id (abs_state g) r)" using w by simp
    show ?thesis
      unfolding e3 e2 Some w2
      by (cases r) (simp_all add: bindR_def abs_at_key [OF id0])
  qed
qed

text \<open>
  Claim C5. For every tolerance, \<open>Battle().evaluate(tolerance)\<close> of \<open>mdp_opt3.py\<close>
  (arrays indexed by the ids of \<open>build_graph\<close>) and of \<open>mdp_opt2.py\<close> (dictionaries
  indexed by the keys) have the same outcome: the same returned value, the same
  exception, or both run forever. The proof runs the two loops in lock step
  (\<open>update_sim\<close>, \<open>sweep_sim\<close>, \<open>loops_agree\<close>): each execution of the loop body reads
  the same operands and stores the same bounds, in the same order, so that the
  arrays stand for the dictionaries throughout.
\<close>

theorem array_evaluate_agrees: "evaluate3 tolerance = evaluate2 tolerance"
  by (rule evaluate_agree)

subsection \<open>\<open>evaluate\<close> raises nothing\<close>

lemma update2_battle:
  assumes r: "run2 s" and bk: "battle_key k"
  shows "\<exists>s'. update2 s k = Inr s'"
proof (cases "k \<in> frozen s")
  case True
  then show ?thesis by simp
next
  case False
  have "tag k \<noteq> 4" using run2_terminals [OF r] False
    by (cases k) (auto simp: win_def loss_def, metis (full_types))
  from getSuccessors_battle [OF bk this] show ?thesis
  proof (elim disjE exE conjE)
    fix st assume k: "k = Propose st"
      and g: "getSuccessors k = Inr (States [Resolve st ''Dig'', Resolve st ''Super Potion''])"
    have "tag k = 0" using k by simp
    from update2_choice [OF False this g] show ?thesis
      by (simp add: choice_bounds_def raise_best_def)
  next
    fix l assume "tag k \<noteq> 0" and g: "getSuccessors k = Inr (Pairs l)"
    from update2_chance [OF False this] show ?thesis by simp
  qed
qed

lemma sweep2_battle:
  "run2 s \<Longrightarrow> \<forall>k\<in>set ks. battle_key k \<Longrightarrow> \<exists>s'. sweep2 ks s = Inr s' \<and> run2 s'"
proof (induction ks arbitrary: s)
  case Nil
  then show ?case by (simp add: sweep2_def)
next
  case (Cons k ks)
  obtain s1 where s1: "update2 s k = Inr s1" using update2_battle [OF Cons.prems(1)] Cons.prems(2) by auto
  have "run2 s1" using Cons.prems(1) s1 by (rule run2_step)
  from Cons.IH [OF this] Cons.prems(2) s1 show ?case by (simp add: sweep2_def)
qed

lemma whileE_no_raise:
  assumes "P s" and "\<And>s. P s \<Longrightarrow> b s \<Longrightarrow> \<exists>s'. c s = Inr s' \<and> P s'"
  shows "whileE b c s \<noteq> Some (Inl e)"
  using whileE_rule [of P s b c "Inl e", OF assms] by auto

lemma evaluate2_no_raise: "evaluate2 tolerance \<noteq> Some (Inl e)"
proof -
  obtain stateps where t: "topoSort [initial_statep] getSuccessorsList = Some (Inr stateps)"
    and ts: "set stateps = reach succ_keys initial_statep"
    using topoSort_battle by blast
  have bk: "\<forall>k\<in>set stateps. battle_key k" using ts reach_battle by auto
  have "whileE (\<lambda>s. dmax s initial_statep - dmin s initial_statep > tolerance)
          (sweep2 stateps) Battle_init \<noteq> Some (Inl e)"
    by (rule whileE_no_raise [where P = run2]) (use run2_init sweep2_battle bk in auto)
  then show ?thesis
    by (auto simp: evaluate2_def t bindR_def split: option.splits sum.splits)
qed

lemma evaluate3_no_raise: "evaluate3 tolerance \<noteq> Some (Inl e)"
  using evaluate2_no_raise by (simp add: evaluate_agree)

lemma whileE_stop: "\<not> b s \<Longrightarrow> whileE b c s = Some (Inr s)"
  by (subst whileE_unfold) simp

lemma seeded_root:
  assumes ok: "ids_ok g" and id0: "id_of g initial_statep = Some 0"
  shows "\<exists>s1 s2. seed g loss True \<lparr>dmin_arr = replicate (length (states g)) 0,
                      dmax_arr = replicate (length (states g)) 1,
                      frozen_a = replicate (length (states g)) False\<rparr> = Inr s1
      \<and> seed g win False s1 = Inr s2 \<and> dmin_arr s2 ! 0 = 0 \<and> dmax_arr s2 ! 0 = 1"
proof -
  obtain s1 s2 where s: "seed g loss True \<lparr>dmin_arr = replicate (length (states g)) 0,
        dmax_arr = replicate (length (states g)) 1,
        frozen_a = replicate (length (states g)) False\<rparr> = Inr s1"
      "seed g win False s1 = Inr s2" "wf3 g s2" "abs_state g s2 = Battle_init"
    using seeded [OF ok] by blast
  have "dmin_arr s2 ! 0 = 0" "dmax_arr s2 ! 0 = 1"
    using abs_at_key [OF id0, of s2] unfolding s(4)
    by (simp_all add: Battle_init_def initial_statep_def win_def loss_def)
  with s(1,2) show ?thesis by blast
qed

text \<open>
  Claim C10. With a tolerance of at least 1 the loop test of \<open>evaluate\<close> fails on
  the initial bounds \<open>[0, 1]\<close> of the root: the loop returns the state it was
  started in, without a sweep, and \<open>evaluate\<close> returns exactly \<open>1/2\<close>, in
  \<open>mdp_opt2.py\<close> and in \<open>mdp_opt3.py\<close>.
\<close>

theorem wide_tolerance:
  assumes "1 \<le> tolerance"
  shows "evaluate2 tolerance = Some (Inr (1 / 2)) \<and> evaluate3 tolerance = Some (Inr (1 / 2))
    \<and> dmin Battle_init initial_statep = 0 \<and> dmax Battle_init initial_statep = 1
    \<and> whileE (\<lambda>s. dmax s initial_statep - dmin s initial_statep > tolerance)
         (sweep2 stateps) Battle_init = Some (Inr Battle_init)
    \<and> (\<exists>g s1 s2. build_graph initial_statep = Some (Inr g)
          \<and> seed g loss True \<lparr>dmin_arr = replicate (length (states g)) 0,
                      dmax_arr = replicate (length (states g)) 1,
                      frozen_a = replicate (length (states g)) False\<rparr> = Inr s1
          \<and> seed g win False s1 = Inr s2
          \<and> dmin_arr s2 ! 0 = 0 \<and> dmax_arr s2 ! 0 = 1
          \<and> whileE (\<lambda>s. dmax_arr s ! 0 - dmin_arr s ! 0 > tolerance)
               (sweep3 g order_ids) s2 = Some (Inr s2))"
proof -
  have i: "dmin Battle_init initial_statep = 0" "dmax Battle_init initial_statep = 1"
    by (simp_all add: Battle_init_def initial_statep_def win_def loss_def)
  have e2: "evaluate2 tolerance = Some (Inr (1 / 2))" using assms by (rule evaluate2_wide)
  then have e3: "evaluate3 tolerance = Some (Inr (1 / 2))" by (simp add: evaluate_agree)
  have w2: "whileE (\<lambda>s. dmax s initial_statep - dmin s initial_statep > tolerance)
         (sweep2 stateps) Battle_init = Some (Inr Battle_init)"
    using assms by (intro whileE_stop) (simp add: i)
  obtain g where g: "build_graph initial_statep = Some (Inr g)" "bfs_inv initial_statep g"
    using build_graph_battle [OF battle_key_initial] by blast
  have ok: "ids_ok g" and id0: "id_of g initial_statep = Some 0"
    using g(2) unfolding bfs_inv_def by blast+
  obtain s1 s2 where s: "seed g loss True \<lparr>dmin_arr = replicate (length (states g)) 0,
        dmax_arr = replicate (length (states g)) 1,
        frozen_a = replicate (length (states g)) False\<rparr> = Inr s1"
      "seed g win False s1 = Inr s2" "dmin_arr s2 ! 0 = 0" "dmax_arr s2 ! 0 = 1"
    using seeded_root [OF ok id0] by blast
  have "whileE (\<lambda>s. dmax_arr s ! 0 - dmin_arr s ! 0 > tolerance)
               (sweep3 g order_ids) s2 = Some (Inr s2)"
    using assms by (intro whileE_stop) (simp add: s(3,4))
  with g(1) s have "\<exists>g s1 s2. build_graph initial_statep = Some (Inr g)
          \<and> seed g loss True \<lparr>dmin_arr = replicate (length (states g)) 0,
                      dmax_arr = replicate (length (states g)) 1,
                      frozen_a = replicate (length (states g)) False\<rparr> = Inr s1
          \<and> seed g win False s1 = Inr s2
          \<and> dmin_arr s2 ! 0 = 0 \<and> dmax_arr s2 ! 0 = 1
          \<and> whileE (\<lambda>s. dmax_arr s ! 0 - dmin_arr s ! 0 > tolerance)
               (sweep3 g order_ids) s2 = Some (Inr s2)"
    by blast
  with e2 e3 i w2 show ?thesis by blast
qed

theorem wide_tolerance_witness:
  "(1::real) \<le> 1 \<and> evaluate2 1 = Some (Inr (1 / 2)) \<and> evaluate3 1 = Some (Inr (1 / 2))
    \<and> whileE (\<lambda>s. dmax s initial_statep - dmin s initial_statep > 1)
         (sweep2 []) Battle_init = Some (Inr Battle_init)"
  using wide_tolerance [of 1 "[]" "[]"] by simp

subsection \<open>Monotone bounds\<close>






















end
